theory Spec2Isabelle
  imports Main "HOL-Library.Char_ord" "HOL-Library.List_Lexorder" "HOL-Library.Multiset"
begin

section \<open>Values\<close>

text \<open>
  The program works on what \<^verbatim>\<open>json.loads\<close> returns: dictionaries, lists, strings,
  integers, booleans and \<^verbatim>\<open>None\<close>. A dictionary is an association list in insertion
  order whose keys are distinct; a string is the list of its characters, one \<^typ>\<open>char\<close>
  for each code point (the 8-bit \<^typ>\<open>char\<close> covers the code points below 256).
  Floating-point numbers are not part of this model.
\<close>

datatype json =
    JNull
  | JBool bool
  | JInt int
  | JStr string
  | JArr "json list"
  | JObj "(string \<times> json) list"

type_synonym obj = "(string \<times> json) list"

text \<open>
  The exceptions of the interpreter that the program can run into. \<open>Unmodelled\<close> is not
  one of them: it stands for the one outcome that this model leaves open (see the sort
  below).
\<close>

datatype py_error = TypeError | AttributeError | Unmodelled

text \<open>\<^verbatim>\<open>d.get(k, default)\<close> on a dictionary.\<close>

definition dget :: "obj \<Rightarrow> string \<Rightarrow> json \<Rightarrow> json" where
  "dget d k dflt = (case map_of d k of None \<Rightarrow> dflt | Some v \<Rightarrow> v)"

text \<open>Truth value of an object, as \<^verbatim>\<open>if x:\<close> takes it.\<close>

fun truthy :: "json \<Rightarrow> bool" where
  "truthy JNull = False"
| "truthy (JBool b) = b"
| "truthy (JInt n) = (n \<noteq> 0)"
| "truthy (JStr s) = (s \<noteq> [])"
| "truthy (JArr xs) = (xs \<noteq> [])"
| "truthy (JObj kvs) = (kvs \<noteq> [])"

text \<open>
  Iteration (\<^verbatim>\<open>for item in x\<close>, \<^verbatim>\<open>list.extend(x)\<close>): a list gives its elements, a
  string its characters as one-character strings, a dictionary its keys; anything else
  raises \<^verbatim>\<open>TypeError\<close>.
\<close>

fun py_iter :: "json \<Rightarrow> py_error + json list" where
  "py_iter (JArr xs) = Inr xs"
| "py_iter (JStr s) = Inr (map (\<lambda>c. JStr [c]) s)"
| "py_iter (JObj kvs) = Inr (map (\<lambda>kv. JStr (fst kv)) kvs)"
| "py_iter v = Inl TypeError"

section \<open>Strings\<close>

text \<open>
  \<^verbatim>\<open>str.isspace\<close> on the code points below 256: tab to carriage return, the four
  separators 0x1C to 0x1F, the space, NEL (0x85) and the no-break space (0xA0).
\<close>

definition isspace :: "char \<Rightarrow> bool" where
  "isspace c = (of_char c \<in> {9, 10, 11, 12, 13, 28, 29, 30, 31, 32, 133, 160 :: nat})"

definition strip :: "string \<Rightarrow> string" where
  "strip s = rev (dropWhile isspace (rev (dropWhile isspace s)))"

definition startswith :: "string \<Rightarrow> string \<Rightarrow> bool" where
  "startswith s p = (take (length p) s = p)"

text \<open>
  \<^verbatim>\<open>s.rfind(sub)\<close>: the highest index at which \<open>sub\<close> occurs in \<open>s\<close>, and \<open>-1\<close> when
  it does not occur. The first argument of the helper is the index of the head of the
  text that is left.
\<close>

fun rfind_from :: "nat \<Rightarrow> string \<Rightarrow> string \<Rightarrow> int" where
  "rfind_from i [] sub = (if sub = [] then int i else - 1)"
| "rfind_from i (c # cs) sub =
     (let r = rfind_from (Suc i) cs sub
      in if 0 \<le> r then r else if startswith (c # cs) sub then int i else - 1)"

definition rfind :: "string \<Rightarrow> string \<Rightarrow> int" where
  "rfind s sub = rfind_from 0 s sub"

text \<open>\<^verbatim>\<open>sub in s\<close> for two strings.\<close>

fun str_in :: "string \<Rightarrow> string \<Rightarrow> bool" where
  "str_in sub [] = (sub = [])"
| "str_in sub (c # cs) = (startswith (c # cs) sub \<or> str_in sub cs)"

text \<open>\<^verbatim>\<open>sep.join(parts)\<close> for a list of strings.\<close>

fun join :: "string \<Rightarrow> string list \<Rightarrow> string" where
  "join sep [] = []"
| "join sep [p] = p"
| "join sep (p # q # ps) = p @ sep @ join sep (q # ps)"

section \<open>The source files and the parser\<close>

text \<open>
  A source file is absent, present but unreadable (\<^verbatim>\<open>open\<close> or \<^verbatim>\<open>read\<close> raises), or
  has a text. The four candidate files \<^verbatim>\<open>conversations 1.json\<close> to
  \<^verbatim>\<open>conversations 4.json\<close> are given by their number.

  \<^verbatim>\<open>json.loads\<close> is a library function: the loaders take it as the parameter \<open>loads\<close>.
  It returns the parsed value or raises, \<^verbatim>\<open>JSONDecodeError\<close> on a text that is not JSON
  and possibly another exception (a \<^verbatim>\<open>RecursionError\<close> on very deep nesting).
\<close>

datatype source_file = Missing | Unreadable | Content string

datatype loads_error = JSONDecodeError | OtherError

type_synonym parser = "string \<Rightarrow> loads_error + json"

type_synonym files = "nat \<Rightarrow> source_file"

section \<open>The loader of the server\<close>

text \<open>
  The salvage of \<^verbatim>\<open>load_conversations\<close> in \<^verbatim>\<open>server.py\<close>, entered when the text is not
  JSON. The text is stripped first; everything below works on the stripped text. Any
  exception inside (the second parse, \<^verbatim>\<open>extend\<close> on a value that cannot be iterated) is
  caught by the bare \<^verbatim>\<open>except\<close>, and nothing is added.
\<close>

definition fixed_server :: "string \<Rightarrow> string option" where
  "fixed_server content0 =
     (let content = strip content0
      in if startswith content ''[''
         then (let last_complete = rfind content ''},''
               in if last_complete > 0
                  then Some (take (nat (last_complete + 1)) content @ '']'')
                  else None)
         else None)"

definition reparse :: "parser \<Rightarrow> string \<Rightarrow> json list" where
  "reparse loads fixed =
     (case loads fixed of
        Inl e \<Rightarrow> []
      | Inr data \<Rightarrow> (case py_iter data of Inl e \<Rightarrow> [] | Inr items \<Rightarrow> items))"

definition salvage_server :: "parser \<Rightarrow> string \<Rightarrow> json list" where
  "salvage_server loads content0 =
     (case fixed_server content0 of None \<Rightarrow> [] | Some fixed \<Rightarrow> reparse loads fixed)"

text \<open>
  What one candidate file adds to \<^verbatim>\<open>all_conversations\<close>: nothing when it is absent or
  cannot be read, the elements of a parsed list, a parsed value that is not a list as one
  record, the result of the salvage on a \<^verbatim>\<open>JSONDecodeError\<close>, and nothing on any other
  exception (the outer \<^verbatim>\<open>except Exception\<close>).
\<close>

definition load_file_server :: "parser \<Rightarrow> source_file \<Rightarrow> json list" where
  "load_file_server loads f =
     (case f of
        Missing \<Rightarrow> []
      | Unreadable \<Rightarrow> []
      | Content content \<Rightarrow>
          (case loads content of
             Inr data \<Rightarrow> (case data of JArr xs \<Rightarrow> xs | _ \<Rightarrow> [data])
           | Inl JSONDecodeError \<Rightarrow> salvage_server loads content
           | Inl OtherError \<Rightarrow> []))"

definition load_all_server :: "parser \<Rightarrow> files \<Rightarrow> json list" where
  "load_all_server loads fs = concat (map (\<lambda>i. load_file_server loads (fs i)) [1, 2, 3, 4])"

section \<open>The loader of the partitioner\<close>

text \<open>
  The same loop in \<^verbatim>\<open>split_json.py\<close>. Its salvage searches and cuts the text as read;
  only the test for the opening bracket looks at the stripped text. It has no handler of
  its own: an exception inside reaches the outer \<^verbatim>\<open>except Exception\<close>, and nothing is
  added.
\<close>

definition fixed_split :: "string \<Rightarrow> string option" where
  "fixed_split content =
     (let last_complete = rfind content ''},''
      in if last_complete > 0 \<and> startswith (strip content) ''[''
         then Some (take (nat (last_complete + 1)) content @ '']'')
         else None)"

definition salvage_split :: "parser \<Rightarrow> string \<Rightarrow> json list" where
  "salvage_split loads content =
     (case fixed_split content of None \<Rightarrow> [] | Some fixed \<Rightarrow> reparse loads fixed)"

definition load_file_split :: "parser \<Rightarrow> source_file \<Rightarrow> json list" where
  "load_file_split loads f =
     (case f of
        Missing \<Rightarrow> []
      | Unreadable \<Rightarrow> []
      | Content content \<Rightarrow>
          (case loads content of
             Inr data \<Rightarrow> (case data of JArr xs \<Rightarrow> xs | _ \<Rightarrow> [data])
           | Inl JSONDecodeError \<Rightarrow> salvage_split loads content
           | Inl OtherError \<Rightarrow> []))"

definition load_all_split :: "parser \<Rightarrow> files \<Rightarrow> json list" where
  "load_all_split loads fs = concat (map (\<lambda>i. load_file_split loads (fs i)) [1, 2, 3, 4])"

section \<open>A parser to run the loaders with\<close>

text \<open>
  To run the loaders on a concrete text the parameter \<open>loads\<close> needs a value. The
  function \<open>json_loads\<close> below reads the part of JSON that the texts used here are
  written in: arrays, objects, strings without escape sequences, integers, \<^verbatim>\<open>true\<close>,
  \<^verbatim>\<open>false\<close>, \<^verbatim>\<open>null\<close>, and the four white-space characters of JSON (space, tab, line
  feed, carriage return) between tokens; it rejects everything else, as
  \<^verbatim>\<open>json.loads\<close> rejects what is not JSON. The first argument of the three mutually
  recursive functions bounds the depth of the recursion; every call either consumes a
  character or is followed by one that does, so twice the length of the text is enough.
\<close>

definition json_ws :: "char \<Rightarrow> bool" where
  "json_ws c = (of_char c \<in> {32, 9, 10, 13 :: nat})"

definition skip_ws :: "string \<Rightarrow> string" where
  "skip_ws s = dropWhile json_ws s"

fun parse_string :: "string \<Rightarrow> (string \<times> string) option" where
  "parse_string [] = None"
| "parse_string (c # cs) =
     (if c = CHR 0x22 then Some ([], cs)
      else if c = CHR 0x5C \<or> (of_char c :: nat) < 32 then None
      else (case parse_string cs of None \<Rightarrow> None | Some (s, r) \<Rightarrow> Some (c # s, r)))"

definition is_digit :: "char \<Rightarrow> bool" where
  "is_digit c = (48 \<le> (of_char c :: nat) \<and> (of_char c :: nat) \<le> 57)"

definition digits_value :: "string \<Rightarrow> int" where
  "digits_value ds = foldl (\<lambda>n d. 10 * n + (int (of_char d) - 48)) 0 ds"

definition parse_int :: "string \<Rightarrow> (json \<times> string) option" where
  "parse_int s =
     (let neg = startswith s ''-'';
          body = (if neg then tl s else s);
          ds = takeWhile is_digit body;
          r = dropWhile is_digit body
      in if ds = [] \<or> (length ds > 1 \<and> hd ds = CHR ''0'') then None
         else if r \<noteq> [] \<and> hd r \<in> {CHR ''.'', CHR ''e'', CHR ''E''} then None
         else Some (JInt (if neg then - digits_value ds else digits_value ds), r))"

fun dict_of :: "(string \<times> json) list \<Rightarrow> obj \<Rightarrow> obj" where
  "dict_of [] d = d"
| "dict_of ((k, v) # kvs) d =
     dict_of kvs (if k \<in> fst ` set d then map (\<lambda>(k', v'). if k' = k then (k', v) else (k', v')) d
                  else d @ [(k, v)])"

fun parse_value :: "nat \<Rightarrow> string \<Rightarrow> (json \<times> string) option"
  and parse_elems :: "nat \<Rightarrow> string \<Rightarrow> (json list \<times> string) option"
  and parse_members :: "nat \<Rightarrow> string \<Rightarrow> ((string \<times> json) list \<times> string) option"
where
  "parse_value 0 s = None"
| "parse_value (Suc n) s =
     (case s of
        [] \<Rightarrow> None
      | c # cs \<Rightarrow>
          if c = CHR 0x22 then
            (case parse_string cs of None \<Rightarrow> None | Some (str, r) \<Rightarrow> Some (JStr str, r))
          else if c = CHR ''['' then
            (case skip_ws cs of
               [] \<Rightarrow> None
             | d # ds \<Rightarrow>
                 if d = CHR '']'' then Some (JArr [], ds)
                 else (case parse_elems n (d # ds) of
                         None \<Rightarrow> None | Some (vs, r) \<Rightarrow> Some (JArr vs, r)))
          else if c = CHR ''{'' then
            (case skip_ws cs of
               [] \<Rightarrow> None
             | d # ds \<Rightarrow>
                 if d = CHR ''}'' then Some (JObj [], ds)
                 else (case parse_members n (d # ds) of
                         None \<Rightarrow> None | Some (kvs, r) \<Rightarrow> Some (JObj (dict_of kvs []), r)))
          else if startswith s ''null'' then Some (JNull, drop 4 s)
          else if startswith s ''true'' then Some (JBool True, drop 4 s)
          else if startswith s ''false'' then Some (JBool False, drop 5 s)
          else parse_int s)"
| "parse_elems 0 s = None"
| "parse_elems (Suc n) s =
     (case parse_value n s of
        None \<Rightarrow> None
      | Some (v, r) \<Rightarrow>
          (case skip_ws r of
             [] \<Rightarrow> None
           | d # ds \<Rightarrow>
               if d = CHR '']'' then Some ([v], ds)
               else if d = CHR '','' then
                 (case parse_elems n (skip_ws ds) of
                    None \<Rightarrow> None | Some (vs, r') \<Rightarrow> Some (v # vs, r'))
               else None))"
| "parse_members 0 s = None"
| "parse_members (Suc n) s =
     (case s of
        [] \<Rightarrow> None
      | c # cs \<Rightarrow>
          if c \<noteq> CHR 0x22 then None
          else (case parse_string cs of
                  None \<Rightarrow> None
                | Some (k, r) \<Rightarrow>
                    (case skip_ws r of
                       [] \<Rightarrow> None
                     | d # ds \<Rightarrow>
                         if d \<noteq> CHR '':'' then None
                         else (case parse_value n (skip_ws ds) of
                                 None \<Rightarrow> None
                               | Some (v, r') \<Rightarrow>
                                   (case skip_ws r' of
                                      [] \<Rightarrow> None
                                    | e # es \<Rightarrow>
                                        if e = CHR ''}'' then Some ([(k, v)], es)
                                        else if e = CHR '','' then
                                          (case parse_members n (skip_ws es) of
                                             None \<Rightarrow> None
                                           | Some (kvs, r'') \<Rightarrow> Some ((k, v) # kvs, r''))
                                        else None)))))"

definition json_loads :: parser where
  "json_loads s =
     (case parse_value (2 * length s + 2) (skip_ws s) of
        None \<Rightarrow> Inl JSONDecodeError
      | Some (v, r) \<Rightarrow> if skip_ws r = [] then Inr v else Inl JSONDecodeError)"

section \<open>The store\<close>

text \<open>
  \<^verbatim>\<open>conversations_cache\<close> is a dictionary from the \<^verbatim>\<open>uuid\<close> of a conversation to the
  conversation. Its keys are whatever the \<^verbatim>\<open>uuid\<close> fields hold, so they are values;
  lists and dictionaries cannot be keys (\<^verbatim>\<open>TypeError\<close>: unhashable), and \<^verbatim>\<open>True\<close> and
  \<^verbatim>\<open>False\<close> are the same keys as \<open>1\<close> and \<open>0\<close>. Assigning to a key that is present
  replaces the value and keeps the place of the key; a new key goes to the end.
\<close>

type_synonym store = "(json \<times> obj) list"

fun hashable :: "json \<Rightarrow> bool" where
  "hashable (JArr xs) = False"
| "hashable (JObj kvs) = False"
| "hashable v = True"

fun key_norm :: "json \<Rightarrow> json" where
  "key_norm (JBool b) = JInt (if b then 1 else 0)"
| "key_norm v = v"

definition key_eq :: "json \<Rightarrow> json \<Rightarrow> bool" where
  "key_eq a b = (key_norm a = key_norm b)"

fun dict_set :: "json \<Rightarrow> obj \<Rightarrow> store \<Rightarrow> store" where
  "dict_set k v [] = [(k, v)]"
| "dict_set k v ((k', v') # ps) =
     (if key_eq k' k then (k', v) # ps else (k', v') # dict_set k v ps)"

fun dict_lookup :: "store \<Rightarrow> json \<Rightarrow> obj option" where
  "dict_lookup [] k = None"
| "dict_lookup ((k', v') # ps) k = (if key_eq k' k then Some v' else dict_lookup ps k)"

text \<open>
  One round of the loop that builds the index:
  \<^verbatim>\<open>if 'uuid' in conv: conversations_cache[conv['uuid']] = conv\<close>.
  On a record that is a list or a string the test is a membership test and the
  subscript raises; on a number, a boolean or \<^verbatim>\<open>None\<close> the test itself raises.
\<close>

fun index_step :: "json \<Rightarrow> store \<Rightarrow> py_error + store" where
  "index_step (JObj d) cache =
     (case map_of d ''uuid'' of
        None \<Rightarrow> Inr cache
      | Some k \<Rightarrow> if hashable k then Inr (dict_set k d cache) else Inl TypeError)"
| "index_step (JArr xs) cache = (if JStr ''uuid'' \<in> set xs then Inl TypeError else Inr cache)"
| "index_step (JStr s) cache = (if str_in ''uuid'' s then Inl TypeError else Inr cache)"
| "index_step v cache = Inl TypeError"

text \<open>
  The loop changes the dictionary in place: when a round raises, the entries made by the
  rounds before it stay. The result is the exception, if any, and the dictionary.
\<close>

fun build_index :: "json list \<Rightarrow> store \<Rightarrow> py_error option \<times> store" where
  "build_index [] cache = (None, cache)"
| "build_index (conv # convs) cache =
     (case index_step conv cache of
        Inl e \<Rightarrow> (Some e, cache)
      | Inr cache' \<Rightarrow> build_index convs cache')"

text \<open>
  The state of the server process: the global \<^verbatim>\<open>conversations_cache\<close>, and the numbers
  of the source files opened so far, in order (the trace of the file reads).
\<close>

record server_state =
  cache :: store
  reads :: "nat list"

definition initial_state :: server_state where
  "initial_state = \<lparr>cache = [], reads = []\<rparr>"

text \<open>
  \<^verbatim>\<open>load_conversations\<close>: a dictionary that is not empty is returned as it is; otherwise
  the four candidate files are loaded and the index is built.
\<close>

definition load_conversations ::
  "parser \<Rightarrow> files \<Rightarrow> server_state \<Rightarrow> (py_error + store) \<times> server_state" where
  "load_conversations loads fs st =
     (if cache st \<noteq> [] then (Inr (cache st), st)
      else (let all_conversations = load_all_server loads fs;
                opened = filter (\<lambda>i. fs i \<noteq> Missing) [1, 2, 3, 4];
                (err, c) = build_index all_conversations (cache st);
                st' = st\<lparr>cache := c, reads := reads st @ opened\<rparr>
            in (case err of None \<Rightarrow> (Inr c, st') | Some e \<Rightarrow> (Inl e, st'))))"

section \<open>Sorting\<close>

text \<open>
  \<^verbatim>\<open>xs.sort(key=..., reverse=True)\<close> on keys that are values. The sort is stable, and with
  \<^verbatim>\<open>reverse=True\<close> it still keeps elements with equal keys in their order: the list is
  reversed, sorted, and reversed again. A list of at most one element is not compared at
  all. Strings are compared with strings, by code points; integers and booleans with each
  other, as numbers; any other pair of two values of this model that are not lists raises
  \<^verbatim>\<open>TypeError\<close>, and a sort of two or more elements has to compare across every two
  kinds of keys that occur. Keys that are all lists are compared element by element; that
  is not modelled.
\<close>

fun is_str :: "json \<Rightarrow> bool" where
  "is_str (JStr s) = True"
| "is_str v = False"

fun str_of :: "json \<Rightarrow> string" where
  "str_of (JStr s) = s"
| "str_of v = []"

fun is_num :: "json \<Rightarrow> bool" where
  "is_num (JInt n) = True"
| "is_num (JBool b) = True"
| "is_num v = False"

fun num_of :: "json \<Rightarrow> int" where
  "num_of (JInt n) = n"
| "num_of (JBool b) = (if b then 1 else 0)"
| "num_of v = 0"

fun is_arr :: "json \<Rightarrow> bool" where
  "is_arr (JArr xs) = True"
| "is_arr v = False"

definition sort_desc :: "('a \<Rightarrow> 'k::linorder) \<Rightarrow> 'a list \<Rightarrow> 'a list" where
  "sort_desc key xs = rev (sort_key key (rev xs))"

definition py_sort_desc :: "('a \<Rightarrow> json) \<Rightarrow> 'a list \<Rightarrow> py_error + 'a list" where
  "py_sort_desc key xs =
     (if length xs \<le> 1 then Inr xs
      else if list_all (\<lambda>x. is_str (key x)) xs then Inr (sort_desc (\<lambda>x. str_of (key x)) xs)
      else if list_all (\<lambda>x. is_num (key x)) xs then Inr (sort_desc (\<lambda>x. num_of (key x)) xs)
      else if list_all (\<lambda>x. is_arr (key x)) xs then Inl Unmodelled
      else Inl TypeError)"

text \<open>A loop that appends one result for each element stops at the first exception.\<close>

fun traverse :: "('a \<Rightarrow> py_error + 'b) \<Rightarrow> 'a list \<Rightarrow> py_error + 'b list" where
  "traverse f [] = Inr []"
| "traverse f (x # xs) =
     (case f x of
        Inl e \<Rightarrow> Inl e
      | Inr y \<Rightarrow> (case traverse f xs of Inl e \<Rightarrow> Inl e | Inr ys \<Rightarrow> Inr (y # ys)))"

section \<open>The list of conversations\<close>

text \<open>
  \<^verbatim>\<open>get_conversation_list\<close> builds one dictionary with six fixed keys for each entry of
  the store; here it is a record. \<^verbatim>\<open>len\<close> is defined on lists, strings and
  dictionaries.
\<close>

record list_entry =
  le_uuid :: json
  le_name :: json
  le_summary :: json
  le_created_at :: json
  le_updated_at :: json
  le_message_count :: nat

fun py_len :: "json \<Rightarrow> py_error + nat" where
  "py_len (JArr xs) = Inr (length xs)"
| "py_len (JStr s) = Inr (length s)"
| "py_len (JObj kvs) = Inr (length kvs)"
| "py_len v = Inl TypeError"

definition list_entry_of :: "json \<times> obj \<Rightarrow> py_error + list_entry" where
  "list_entry_of item =
     (case item of (uuid, conv) \<Rightarrow>
        (case py_len (dget conv ''chat_messages'' (JArr [])) of
           Inl e \<Rightarrow> Inl e
         | Inr n \<Rightarrow>
             Inr \<lparr>le_uuid = uuid,
                  le_name = dget conv ''name'' (JStr ''Untitled''),
                  le_summary = dget conv ''summary'' (JStr []),
                  le_created_at = dget conv ''created_at'' (JStr []),
                  le_updated_at = dget conv ''updated_at'' (JStr []),
                  le_message_count = n\<rparr>))"

definition conversation_list :: "store \<Rightarrow> py_error + list_entry list" where
  "conversation_list convs =
     (case traverse list_entry_of convs of
        Inl e \<Rightarrow> Inl e
      | Inr result \<Rightarrow> py_sort_desc le_created_at result)"

definition get_conversation_list ::
  "parser \<Rightarrow> files \<Rightarrow> server_state \<Rightarrow> (py_error + list_entry list) \<times> server_state" where
  "get_conversation_list loads fs st =
     (case load_conversations loads fs st of
        (Inl e, st') \<Rightarrow> (Inl e, st')
      | (Inr convs, st') \<Rightarrow> (conversation_list convs, st'))"

section \<open>Flattening the content of a message\<close>

text \<open>
  \<^verbatim>\<open>format_message_content\<close> collects parts and joins them with a line feed. A part
  can be any value (the \<^verbatim>\<open>text\<close> field of a message or of a block is appended as it
  is), and \<^verbatim>\<open>join\<close> raises \<^verbatim>\<open>TypeError\<close> on a part that is not a string. The f-strings
  format a value: a string as itself, any other value as \<^verbatim>\<open>str\<close> prints it, which is the
  parameter \<open>repr\<close>.
\<close>

definition fmt :: "(json \<Rightarrow> string) \<Rightarrow> json \<Rightarrow> string" where
  "fmt repr v = (case v of JStr s \<Rightarrow> s | _ \<Rightarrow> repr v)"

definition newline :: string where
  "newline = [CHR 0x0A]"

definition item_part :: "(json \<Rightarrow> string) \<Rightarrow> json \<Rightarrow> json option" where
  "item_part repr item =
     (case item of
        JObj d \<Rightarrow>
          (if map_of d ''type'' = Some (JStr ''text'') then Some (dget d ''text'' (JStr []))
           else if map_of d ''type'' = Some (JStr ''tool_use'') then
             (let tool_name = dget d ''name'' (JStr ''unknown'')
              in Some (JStr (newline @ ''[Tool: '' @ fmt repr tool_name @ '']'' @ newline)))
           else if map_of d ''type'' = Some (JStr ''tool_result'') then
             Some (JStr (newline @ ''[Tool Result]'' @ newline
                         @ fmt repr (dget d ''content'' (JStr []))))
           else None)
      | JStr s \<Rightarrow> Some (JStr s)
      | _ \<Rightarrow> None)"

definition py_join :: "string \<Rightarrow> json list \<Rightarrow> py_error + string" where
  "py_join sep parts =
     (if list_all is_str parts then Inr (join sep (map str_of parts)) else Inl TypeError)"

definition format_message_content :: "(json \<Rightarrow> string) \<Rightarrow> obj \<Rightarrow> py_error + string" where
  "format_message_content repr msg =
     (let text_parts = (case map_of msg ''text'' of
                          None \<Rightarrow> []
                        | Some t \<Rightarrow> if truthy t then [t] else [])
      in case (case map_of msg ''content'' of
                 None \<Rightarrow> Inr []
               | Some c \<Rightarrow> if truthy c then py_iter c else Inr []) of
           Inl e \<Rightarrow> Inl e
         | Inr items \<Rightarrow> py_join newline (text_parts @ List.map_filter (item_part repr) items))"

section \<open>One conversation\<close>

text \<open>
  \<^verbatim>\<open>serve_conversation\<close> answers 404 when the identifier is not in the store (or the
  stored dictionary is empty), and otherwise writes the conversation with every message
  formatted. \<^verbatim>\<open>msg.get\<close> raises \<^verbatim>\<open>AttributeError\<close> on a message that is not a
  dictionary.
\<close>

record message_view =
  mv_uuid :: json
  mv_sender :: json
  mv_created_at :: json
  mv_content :: string
  mv_attachments :: json
  mv_files :: json

record conversation_view =
  cv_uuid :: json
  cv_name :: json
  cv_summary :: json
  cv_created_at :: json
  cv_updated_at :: json
  cv_messages :: "message_view list"

datatype response = NotFound | Found conversation_view

definition message_view_of :: "(json \<Rightarrow> string) \<Rightarrow> json \<Rightarrow> py_error + message_view" where
  "message_view_of repr msg =
     (case msg of
        JObj d \<Rightarrow>
          (case format_message_content repr d of
             Inl e \<Rightarrow> Inl e
           | Inr content \<Rightarrow>
               Inr \<lparr>mv_uuid = dget d ''uuid'' (JStr []),
                    mv_sender = dget d ''sender'' (JStr ''unknown''),
                    mv_created_at = dget d ''created_at'' (JStr []),
                    mv_content = content,
                    mv_attachments = dget d ''attachments'' (JArr []),
                    mv_files = dget d ''files'' (JArr [])\<rparr>)
      | _ \<Rightarrow> Inl AttributeError)"

definition serve_conversation ::
  "(json \<Rightarrow> string) \<Rightarrow> store \<Rightarrow> string \<Rightarrow> py_error + response" where
  "serve_conversation repr convs uuid =
     (case dict_lookup convs (JStr uuid) of
        None \<Rightarrow> Inr NotFound
      | Some conv \<Rightarrow>
          if conv = [] then Inr NotFound
          else (case py_iter (dget conv ''chat_messages'' (JArr [])) of
                  Inl e \<Rightarrow> Inl e
                | Inr msgs \<Rightarrow>
                    (case traverse (message_view_of repr) msgs of
                       Inl e \<Rightarrow> Inl e
                     | Inr messages \<Rightarrow>
                         Inr (Found \<lparr>cv_uuid = dget conv ''uuid'' (JStr []),
                                     cv_name = dget conv ''name'' (JStr ''Untitled''),
                                     cv_summary = dget conv ''summary'' (JStr []),
                                     cv_created_at = dget conv ''created_at'' (JStr []),
                                     cv_updated_at = dget conv ''updated_at'' (JStr []),
                                     cv_messages = messages\<rparr>))))"

section \<open>Search\<close>

text \<open>
  \<^verbatim>\<open>str.lower\<close> is a library function, the parameter \<open>lower\<close>; calling \<^verbatim>\<open>.lower()\<close> on
  a value that is not a string raises \<^verbatim>\<open>AttributeError\<close>.
\<close>

record search_hit =
  sh_uuid :: json
  sh_name :: json
  sh_summary :: json
  sh_created_at :: json
  sh_match_type :: string

definition py_lower :: "(string \<Rightarrow> string) \<Rightarrow> json \<Rightarrow> py_error + string" where
  "py_lower lower v = (case v of JStr s \<Rightarrow> Inr (lower s) | _ \<Rightarrow> Inl AttributeError)"

text \<open>
  The inner loop over the messages of one conversation: it looks at the \<^verbatim>\<open>text\<close> field
  of each message and leaves at the first message whose lowered text contains the query.
\<close>

fun scan_messages :: "(string \<Rightarrow> string) \<Rightarrow> string \<Rightarrow> json list \<Rightarrow> py_error + bool" where
  "scan_messages lower query_lower [] = Inr False"
| "scan_messages lower query_lower (msg # msgs) =
     (case msg of
        JObj d \<Rightarrow>
          (case py_lower lower (dget d ''text'' (JStr [])) of
             Inl e \<Rightarrow> Inl e
           | Inr text \<Rightarrow>
               if str_in query_lower text then Inr True
               else scan_messages lower query_lower msgs)
      | _ \<Rightarrow> Inl AttributeError)"

definition hit :: "json \<Rightarrow> obj \<Rightarrow> string \<Rightarrow> search_hit" where
  "hit uuid conv match_type =
     \<lparr>sh_uuid = uuid,
      sh_name = dget conv ''name'' (JStr ''Untitled''),
      sh_summary = dget conv ''summary'' (JStr []),
      sh_created_at = dget conv ''created_at'' (JStr []),
      sh_match_type = match_type\<rparr>"

definition search_conv ::
  "(string \<Rightarrow> string) \<Rightarrow> string \<Rightarrow> json \<times> obj \<Rightarrow> py_error + search_hit option" where
  "search_conv lower query_lower item =
     (case item of (uuid, conv) \<Rightarrow>
        (case py_lower lower (dget conv ''name'' (JStr [])) of
           Inl e \<Rightarrow> Inl e
         | Inr name \<Rightarrow>
             (case py_lower lower (dget conv ''summary'' (JStr [])) of
                Inl e \<Rightarrow> Inl e
              | Inr summary \<Rightarrow>
                  if str_in query_lower name \<or> str_in query_lower summary
                  then Inr (Some (hit uuid conv ''title/summary''))
                  else (case py_iter (dget conv ''chat_messages'' (JArr [])) of
                          Inl e \<Rightarrow> Inl e
                        | Inr msgs \<Rightarrow>
                            (case scan_messages lower query_lower msgs of
                               Inl e \<Rightarrow> Inl e
                             | Inr found \<Rightarrow>
                                 Inr (if found then Some (hit uuid conv ''message'')
                                      else None))))))"

definition search_results ::
  "(string \<Rightarrow> string) \<Rightarrow> store \<Rightarrow> string \<Rightarrow> py_error + search_hit list" where
  "search_results lower convs query =
     (case traverse (search_conv lower (lower query)) convs of
        Inl e \<Rightarrow> Inl e
      | Inr hits \<Rightarrow>
          (case py_sort_desc sh_created_at (List.map_filter id hits) of
             Inl e \<Rightarrow> Inl e
           | Inr results \<Rightarrow> Inr (take 100 results)))"

definition serve_search ::
  "parser \<Rightarrow> files \<Rightarrow> (string \<Rightarrow> string) \<Rightarrow> string \<Rightarrow> server_state
     \<Rightarrow> (py_error + search_hit list) \<times> server_state" where
  "serve_search loads fs lower query st =
     (if query = [] then (Inr [], st)
      else (case load_conversations loads fs st of
              (Inl e, st') \<Rightarrow> (Inl e, st')
            | (Inr convs, st') \<Rightarrow> (search_results lower convs query, st')))"

text \<open>
  A value for the parameter \<open>lower\<close> to run the search with: on the letters A to Z it
  is \<^verbatim>\<open>str.lower\<close>, and it leaves every other character as it is.
\<close>

definition ascii_lower :: "string \<Rightarrow> string" where
  "ascii_lower s =
     map (\<lambda>c. if 65 \<le> (of_char c :: nat) \<and> (of_char c :: nat) \<le> 90
               then char_of (of_char c + 32 :: nat) else c) s"

section \<open>The partitioner\<close>

text \<open>
  \<^verbatim>\<open>split_conversations\<close> sorts the loaded records by \<^verbatim>\<open>x.get('created_at', '')\<close>,
  which raises \<^verbatim>\<open>AttributeError\<close> on a record that is not a dictionary, and packs them
  into chunks. The size of a record is the number of bytes of \<^verbatim>\<open>json.dumps\<close> of it, the
  parameter \<open>size_of\<close>.
\<close>

definition MAX_CHUNK_SIZE :: nat where
  "MAX_CHUNK_SIZE = 45 * 1024 * 1024"

definition created_at_of :: "json \<Rightarrow> py_error + json" where
  "created_at_of x =
     (case x of JObj d \<Rightarrow> Inr (dget d ''created_at'' (JStr [])) | _ \<Rightarrow> Inl AttributeError)"

definition sort_conversations :: "json list \<Rightarrow> py_error + json list" where
  "sort_conversations convs =
     (case traverse created_at_of convs of
        Inl e \<Rightarrow> Inl e
      | Inr keys \<Rightarrow>
          (case py_sort_desc fst (zip keys convs) of
             Inl e \<Rightarrow> Inl e
           | Inr ordered \<Rightarrow> Inr (map snd ordered)))"

record pack_state =
  chunks :: "json list list"
  current_chunk :: "json list"
  current_size :: nat

definition pack_step :: "(json \<Rightarrow> nat) \<Rightarrow> pack_state \<Rightarrow> json \<Rightarrow> pack_state" where
  "pack_step size_of st conv =
     (let conv_size = size_of conv;
          st' = (if current_size st + conv_size > MAX_CHUNK_SIZE \<and> current_chunk st \<noteq> []
                 then \<lparr>chunks = chunks st @ [current_chunk st], current_chunk = [],
                       current_size = 0\<rparr>
                 else st)
      in \<lparr>chunks = chunks st', current_chunk = current_chunk st' @ [conv],
          current_size = current_size st' + conv_size\<rparr>)"

definition pack :: "(json \<Rightarrow> nat) \<Rightarrow> json list \<Rightarrow> json list list" where
  "pack size_of convs =
     (let st = foldl (pack_step size_of)
                 \<lparr>chunks = [], current_chunk = [], current_size = 0\<rparr> convs
      in if current_chunk st \<noteq> [] then chunks st @ [current_chunk st] else chunks st)"

text \<open>The chunks that \<^verbatim>\<open>split_conversations\<close> writes, in the order of their file names.\<close>

definition split_conversations ::
  "parser \<Rightarrow> files \<Rightarrow> (json \<Rightarrow> nat) \<Rightarrow> py_error + json list list" where
  "split_conversations loads fs size_of =
     (case sort_conversations (load_all_split loads fs) of
        Inl e \<Rightarrow> Inl e
      | Inr ordered \<Rightarrow> Inr (pack size_of ordered))"

section \<open>The packing loop as a recursive function\<close>

text \<open>
  For the proofs: the rest of the loop of \<^verbatim>\<open>split_conversations\<close> from a current chunk
  \<open>cur\<close> on, as a function of the records still to come. It is shown equal to the
  loop above (lemma \<open>pack_pack_from\<close>).
\<close>

abbreviation chunk_bytes :: "(json \<Rightarrow> nat) \<Rightarrow> json list \<Rightarrow> nat" where
  "chunk_bytes sz c \<equiv> sum_list (map sz c)"

fun pack_from :: "(json \<Rightarrow> nat) \<Rightarrow> json list \<Rightarrow> json list \<Rightarrow> json list list" where
  "pack_from sz cur [] = (if cur \<noteq> [] then [cur] else [])"
| "pack_from sz cur (x # xs) =
     (if chunk_bytes sz cur + sz x > MAX_CHUNK_SIZE \<and> cur \<noteq> [] then cur # pack_from sz [x] xs
      else pack_from sz (cur @ [x]) xs)"

definition finish :: "pack_state \<Rightarrow> json list list" where
  "finish st = (if current_chunk st \<noteq> [] then chunks st @ [current_chunk st] else chunks st)"

section \<open>Sample data\<close>

text \<open>The truncated text of the salvage scenario and the record it holds in full.\<close>

definition truncated_text :: string where
  \<open>truncated_text = ''[{"uuid":"a","name":"x"},{"uuid":"b","name":"y"''\<close>

definition record_a :: json where
  "record_a = JObj [(''uuid'', JStr ''a''), (''name'', JStr ''x'')]"

text \<open>The same text behind a form feed, as the only source file.\<close>

definition form_feed_text :: string where
  "form_feed_text = CHR 0x0C # truncated_text"

definition form_feed_files :: files where
  "form_feed_files i = (if i = 1 then Content form_feed_text else Missing)"

text \<open>
  Three conversations of 20 MB, 20 MB and 10 MB, in two source files and not in the order
  of their dates.
\<close>

definition conv_20a :: json where
  "conv_20a = JObj [(''uuid'', JStr ''c1''), (''created_at'', JStr ''2024-03'')]"

definition conv_20b :: json where
  "conv_20b = JObj [(''uuid'', JStr ''c2''), (''created_at'', JStr ''2024-02'')]"

definition conv_10 :: json where
  "conv_10 = JObj [(''uuid'', JStr ''c3''), (''created_at'', JStr ''2024-01'')]"

definition sample_size :: "json \<Rightarrow> nat" where
  "sample_size c = (if c = conv_10 then 10 * 1024 * 1024 else 20 * 1024 * 1024)"

definition three_files :: files where
  \<open>three_files i =
     (if i = 1 then Content ''[{"uuid":"c2","created_at":"2024-02"},{"uuid":"c3","created_at":"2024-01"}]''
      else if i = 3 then Content ''{"uuid":"c1","created_at":"2024-03"}''
      else Missing)\<close>

text \<open>
  Two source files with two records of the same identifier and a record with none.
\<close>

definition old_a :: obj where
  "old_a = [(''uuid'', JStr ''a''), (''name'', JStr ''old'')]"

definition new_a :: obj where
  "new_a = [(''uuid'', JStr ''a''), (''name'', JStr ''new'')]"

definition no_id :: obj where
  "no_id = [(''name'', JStr ''nobody'')]"

definition duplicate_files :: files where
  \<open>duplicate_files i =
     (if i = 1 then Content ''[{"uuid":"a","name":"old"},{"name":"nobody"}]''
      else if i = 2 then Content ''[{"uuid":"a","name":"new"}]''
      else Missing)\<close>

text \<open>
  A source file that holds an empty list, the state after the first load of it, and the
  state and the list entry after the load of the two files above.
\<close>

definition empty_array_files :: files where
  "empty_array_files i = (if i = 1 then Content ''[]'' else Missing)"

definition after_first_load :: server_state where
  "after_first_load = snd (load_conversations json_loads empty_array_files initial_state)"

definition loaded_state :: server_state where
  "loaded_state = \<lparr>cache = [(JStr ''a'', new_a)], reads = [1, 2]\<rparr>"

definition listed_a :: list_entry where
  "listed_a = \<lparr>le_uuid = JStr ''a'', le_name = JStr ''new'', le_summary = JStr [],
     le_created_at = JStr [], le_updated_at = JStr [], le_message_count = 0\<rparr>"

text \<open>
  A store of four conversations, two of them without \<^verbatim>\<open>created_at\<close>, with its list
  and with the hits of a search for \<^verbatim>\<open>PL\<close>.
\<close>

definition conv_plan :: obj where
  "conv_plan = [(''uuid'', JStr ''p''), (''name'', JStr ''Plan''),
     (''created_at'', JStr ''2024-01'')]"

definition conv_plot :: obj where
  "conv_plot = [(''uuid'', JStr ''q''), (''name'', JStr ''Plot'')]"

definition conv_plum :: obj where
  "conv_plum = [(''uuid'', JStr ''r''), (''name'', JStr ''Plum''),
     (''created_at'', JStr ''2024-03'')]"

definition conv_plus :: obj where
  "conv_plus = [(''uuid'', JStr ''s''), (''name'', JStr ''Plus'')]"

definition fruit_store :: store where
  "fruit_store = [(JStr ''p'', conv_plan), (JStr ''q'', conv_plot), (JStr ''r'', conv_plum),
     (JStr ''s'', conv_plus)]"

definition entry :: "string \<Rightarrow> string \<Rightarrow> string \<Rightarrow> list_entry" where
  "entry u n c = \<lparr>le_uuid = JStr u, le_name = JStr n, le_summary = JStr [],
     le_created_at = JStr c, le_updated_at = JStr [], le_message_count = 0\<rparr>"

definition title_hit :: "string \<Rightarrow> string \<Rightarrow> string \<Rightarrow> search_hit" where
  "title_hit u n c = \<lparr>sh_uuid = JStr u, sh_name = JStr n, sh_summary = JStr [],
     sh_created_at = JStr c, sh_match_type = ''title/summary''\<rparr>"

definition fruit_list :: "list_entry list" where
  "fruit_list = [entry ''r'' ''Plum'' ''2024-03'', entry ''p'' ''Plan'' ''2024-01'',
     entry ''q'' ''Plot'' [], entry ''s'' ''Plus'' []]"

definition fruit_hits :: "search_hit list" where
  "fruit_hits = [title_hit ''r'' ''Plum'' ''2024-03'', title_hit ''p'' ''Plan'' ''2024-01'',
     title_hit ''q'' ''Plot'' [], title_hit ''s'' ''Plus'' []]"

text \<open>
  A store of 101 conversations that all match a search for \<^verbatim>\<open>note\<close>, oldest first.
\<close>

definition many_conv :: "nat \<Rightarrow> json \<times> obj" where
  "many_conv n = (JStr [char_of (32 + n)], [(''uuid'', JStr [char_of (32 + n)]),
     (''name'', JStr ''Notes''), (''created_at'', JStr [char_of (32 + n)])])"

definition many_store :: store where
  "many_store = map many_conv [0..<101]"

definition many_hit :: "nat \<Rightarrow> search_hit" where
  "many_hit n = \<lparr>sh_uuid = JStr [char_of (32 + n)], sh_name = JStr ''Notes'', sh_summary = JStr [],
     sh_created_at = JStr [char_of (32 + n)], sh_match_type = ''title/summary''\<rparr>"

text \<open>
  A store whose conversation has the empty string as name, and a conversation with two
  messages and no name, with its list entry and its full view.
\<close>

definition empty_name_store :: store where
  "empty_name_store = [(JStr ''e'', [(''uuid'', JStr ''e''), (''name'', JStr [])])]"

definition nameless :: obj where
  "nameless = [(''uuid'', JStr ''n''),
     (''chat_messages'', JArr [JObj [(''text'', JStr ''hi'')], JObj [(''text'', JStr ''ho'')]])]"

definition nameless_entry :: list_entry where
  "nameless_entry = \<lparr>le_uuid = JStr ''n'', le_name = JStr ''Untitled'', le_summary = JStr [],
     le_created_at = JStr [], le_updated_at = JStr [], le_message_count = 2\<rparr>"

definition plain_message :: "string \<Rightarrow> message_view" where
  "plain_message t = \<lparr>mv_uuid = JStr [], mv_sender = JStr ''unknown'', mv_created_at = JStr [],
     mv_content = t, mv_attachments = JArr [], mv_files = JArr []\<rparr>"

definition nameless_view :: conversation_view where
  "nameless_view = \<lparr>cv_uuid = JStr ''n'', cv_name = JStr ''Untitled'', cv_summary = JStr [],
     cv_created_at = JStr [], cv_updated_at = JStr [],
     cv_messages = [plain_message ''hi'', plain_message ''ho'']\<rparr>"

text \<open>
  A message with a tool use among its content blocks and its flattened content; a
  conversation of that message alone; and a conversation in which it is the second of
  three messages, the third of which is not a dictionary, with the hit of a search that
  matches the second.
\<close>

definition tool_message :: obj where
  "tool_message = [(''text'', JStr ''Run it''),
     (''content'', JArr [JObj [(''type'', JStr ''text''), (''text'', JStr ''Run it'')],
                         JObj [(''type'', JStr ''tool_use''), (''name'', JStr ''bash'')]])]"

definition tool_flat :: string where
  "tool_flat = ''Run it'' @ newline @ ''Run it'' @ newline @ newline @ ''[Tool: bash]'' @ newline"

definition shell_conv :: obj where
  "shell_conv = [(''uuid'', JStr ''t''), (''name'', JStr ''Shell''),
     (''chat_messages'', JArr [JObj [(''text'', JStr ''Hello'')], JObj tool_message, JNull])]"

definition tool_conv :: obj where
  "tool_conv = [(''uuid'', JStr ''u''), (''name'', JStr ''Shell''),
     (''chat_messages'', JArr [JObj tool_message])]"

definition tool_store :: store where
  "tool_store = [(JStr ''u'', tool_conv)]"

definition message_hit :: search_hit where
  "message_hit = \<lparr>sh_uuid = JStr ''t'', sh_name = JStr ''Shell'', sh_summary = JStr [],
     sh_created_at = JStr [], sh_match_type = ''message''\<rparr>"

section \<open>Searching a text backwards\<close>

lemma rfind_from_nonneg_iff: "0 \<le> rfind_from i s sub \<longleftrightarrow> str_in sub s"
  by (induction s arbitrary: i) (auto simp: Let_def)

lemma rfind_from_absent: "\<not> str_in sub s \<Longrightarrow> rfind_from i s sub = - 1"
  by (induction s arbitrary: i) (auto simp: Let_def)

lemma rfind_from_last:
  assumes "sub \<noteq> []" and "\<not> str_in sub (tl (sub @ rest))"
  shows "rfind_from i (pre @ sub @ rest) sub = int (i + length pre)"
proof (induction pre arbitrary: i)
  case Nil
  obtain c cs where cs: "sub @ rest = c # cs"
    using assms(1) by (cases "sub @ rest") auto
  with assms(2) have "\<not> 0 \<le> rfind_from (Suc i) cs sub"
    by (simp add: rfind_from_nonneg_iff)
  moreover have "startswith (c # cs) sub"
    unfolding cs [symmetric] by (simp add: startswith_def)
  ultimately show ?case
    using cs by (simp add: Let_def)
next
  case (Cons p pre)
  then show ?case by (simp add: Let_def)
qed

lemma str_in_hd_mem: "str_in (c # sub) s \<Longrightarrow> c \<in> set s"
  by (induction s) (auto simp: startswith_def)

lemma rfind_from_found:
  "0 \<le> rfind_from i s sub \<Longrightarrow> \<exists>pre rest. s = pre @ sub @ rest \<and> rfind_from i s sub = int (i + length pre)"
proof (induction s arbitrary: i)
  case Nil
  then show ?case by (auto split: if_splits)
next
  case (Cons c cs)
  show ?case
  proof (cases "0 \<le> rfind_from (Suc i) cs sub")
    case True
    from Cons.IH [OF this] obtain pre rest
      where "cs = pre @ sub @ rest" "rfind_from (Suc i) cs sub = int (Suc i + length pre)"
      by blast
    then have "c # cs = (c # pre) @ sub @ rest \<and> rfind_from i (c # cs) sub = int (i + length (c # pre))"
      using True by (simp add: Let_def)
    then show ?thesis by blast
  next
    case False
    with Cons.prems have sw: "startswith (c # cs) sub" and r: "rfind_from i (c # cs) sub = int i"
      by (auto simp: Let_def split: if_splits)
    from sw have "c # cs = [] @ sub @ drop (length sub) (c # cs)"
      unfolding startswith_def by (metis append_Nil append_take_drop_id)
    with r show ?thesis by (metis add.right_neutral list.size(3))
  qed
qed

lemma rfind_from_shift:
  "rfind_from (k + i) s sub = (if 0 \<le> rfind_from k s sub then rfind_from k s sub + int i else - 1)"
proof (induction s arbitrary: k)
  case Nil
  then show ?case by simp
next
  case (Cons c cs)
  from Cons [of "Suc k"] show ?case by (simp add: Let_def)
qed

lemma not_space_brace: "\<not> isspace CHR ''}''" "\<not> isspace CHR '',''" "\<not> isspace CHR ''[''"
  by (simp_all add: isspace_def)

lemma rfind_from_ws_prefix:
  "\<forall>c\<in>set ws. isspace c \<Longrightarrow> rfind_from i (ws @ s) ''},'' = rfind_from (i + length ws) s ''},''"
proof (induction ws arbitrary: i)
  case Nil
  then show ?case by simp
next
  case (Cons w ws)
  then have "w \<noteq> CHR ''}''" using not_space_brace by auto
  then have "\<not> startswith (w # ws @ s) ''},''" by (simp add: startswith_def)
  moreover have "\<not> 0 \<le> rfind_from (Suc i) (ws @ s) ''},'' \<Longrightarrow> rfind_from (Suc i) (ws @ s) ''},'' = - 1"
    by (simp add: rfind_from_absent rfind_from_nonneg_iff)
  ultimately show ?case using Cons by (simp add: Let_def)
qed

lemma rfind_from_ws_suffix:
  assumes "\<forall>c\<in>set ws. isspace c"
  shows "rfind_from i (s @ ws) ''},'' = rfind_from i s ''},''"
proof (induction s arbitrary: i)
  case Nil
  have "\<not> str_in ''},'' ws"
    using assms not_space_brace(1) str_in_hd_mem by blast
  then show ?case by (simp add: rfind_from_absent)
next
  case (Cons c cs)
  have "startswith (c # cs @ ws) ''},'' = startswith (c # cs) ''},''"
  proof (cases cs)
    case Nil
    then show ?thesis
      using assms not_space_brace(2) by (cases ws) (auto simp: startswith_def)
  next
    case (Cons d ds)
    then show ?thesis by (simp add: startswith_def)
  qed
  with Cons show ?case by (simp add: Let_def)
qed

section \<open>The salvage\<close>

lemma fixed_server_last:
  assumes "startswith (strip content) ''[''"
    and "strip content = pre @ ''},'' @ rest"
    and "\<not> str_in ''},'' ('','' @ rest)"
  shows "fixed_server content = Some (pre @ ''}]'')"
proof -
  have r: "rfind (strip content) ''},'' = int (length pre)"
    unfolding rfind_def assms(2) using assms(3) by (subst rfind_from_last) simp_all
  have "pre \<noteq> []"
    using assms(1,2) by (auto simp: startswith_def)
  then show ?thesis
    using assms(1) r by (simp add: fixed_server_def Let_def assms(2) nat_add_distrib)
qed

lemma fixed_server_none:
  "\<not> startswith (strip content) ''['' \<or> \<not> str_in ''},'' (strip content)
    \<Longrightarrow> fixed_server content = None"
  by (auto simp: fixed_server_def Let_def rfind_def rfind_from_absent)

lemma fixed_truncated: \<open>fixed_server truncated_text = Some ''[{"uuid":"a","name":"x"}]''\<close>
  by code_simp

text \<open>
  C5. When the parser rejects the text of a file, the loader of the server adds nothing
  unless the stripped text starts with \<open>[\<close> and contains \<open>},\<close>; when it does, the text
  is cut after the brace of the last \<open>},\<close>, closed with \<open>]\<close> and parsed again, and the
  elements of the result are added. For the truncated text of the scenario, with a parser
  that rejects it and reads the repaired text as the list of the one complete record, the
  loader returns exactly that record.
\<close>

theorem salvage_recovers:
  \<open>(loads content = Inl JSONDecodeError \<longrightarrow>
      (\<not> startswith (strip content) ''['' \<longrightarrow> load_file_server loads (Content content) = []) \<and>
      (\<not> str_in ''},'' (strip content) \<longrightarrow> load_file_server loads (Content content) = []) \<and>
      (\<forall>pre rest. startswith (strip content) ''['' \<and> strip content = pre @ ''},'' @ rest \<and>
          \<not> str_in ''},'' ('','' @ rest) \<longrightarrow>
          load_file_server loads (Content content) = reparse loads (pre @ ''}]''))) \<and>
   (loads truncated_text = Inl JSONDecodeError \<and>
    loads ''[{"uuid":"a","name":"x"}]'' = Inr (JArr [record_a]) \<longrightarrow>
      load_file_server loads (Content truncated_text) = [record_a])\<close>
proof (intro conjI impI allI)
  assume "loads content = Inl JSONDecodeError" and "\<not> startswith (strip content) ''[''"
  then show "load_file_server loads (Content content) = []"
    by (simp add: load_file_server_def salvage_server_def fixed_server_none)
next
  assume "loads content = Inl JSONDecodeError" and "\<not> str_in ''},'' (strip content)"
  then show "load_file_server loads (Content content) = []"
    by (simp add: load_file_server_def salvage_server_def fixed_server_none)
next
  fix pre rest
  assume "loads content = Inl JSONDecodeError"
    and "startswith (strip content) ''['' \<and> strip content = pre @ ''},'' @ rest \<and>
          \<not> str_in ''},'' ('','' @ rest)"
  then have "loads content = Inl JSONDecodeError"
    and "fixed_server content = Some (pre @ ''}]'')"
    by (blast intro: fixed_server_last)+
  then show "load_file_server loads (Content content) = reparse loads (pre @ ''}]'')"
    by (simp add: load_file_server_def salvage_server_def)
next
  assume \<open>loads truncated_text = Inl JSONDecodeError \<and>
    loads ''[{"uuid":"a","name":"x"}]'' = Inr (JArr [record_a])\<close>
  then show "load_file_server loads (Content truncated_text) = [record_a]"
    by (simp add: load_file_server_def salvage_server_def fixed_truncated reparse_def)
qed

theorem salvage_recovers_witness:
  \<open>json_loads truncated_text = Inl JSONDecodeError \<and>
   json_loads ''[{"uuid":"a","name":"x"}]'' = Inr (JArr [record_a]) \<and>
   startswith (strip truncated_text) ''['' \<and>
   strip truncated_text = ''[{"uuid":"a","name":"x"'' @ ''},'' @ ''{"uuid":"b","name":"y"'' \<and>
   \<not> str_in ''},'' ('','' @ ''{"uuid":"b","name":"y"'') \<and>
   reparse json_loads (''[{"uuid":"a","name":"x"'' @ ''}]'') = [record_a] \<and>
   load_file_server json_loads (Content truncated_text) = [record_a] \<and>
   json_loads ''{"uuid":"a"'' = Inl JSONDecodeError \<and>
   \<not> startswith (strip ''{"uuid":"a"'') ''['' \<and>
   load_file_server json_loads (Content ''{"uuid":"a"'') = [] \<and>
   json_loads ''[{"uuid":"a"'' = Inl JSONDecodeError \<and>
   \<not> str_in ''},'' (strip ''[{"uuid":"a"'') \<and>
   load_file_server json_loads (Content ''[{"uuid":"a"'') = []\<close>
proof -
  have h1: "json_loads truncated_text = Inl JSONDecodeError" by code_simp
  have h2: \<open>json_loads ''[{"uuid":"a","name":"x"}]'' = Inr (JArr [record_a])\<close> by code_simp
  have h3: "startswith (strip truncated_text) ''[''" by code_simp
  have h4: \<open>strip truncated_text = ''[{"uuid":"a","name":"x"'' @ ''},'' @ ''{"uuid":"b","name":"y"''\<close>
    by code_simp
  have h5: \<open>\<not> str_in ''},'' ('','' @ ''{"uuid":"b","name":"y"'')\<close> by code_simp
  have h6: \<open>reparse json_loads (''[{"uuid":"a","name":"x"'' @ ''}]'') = [record_a]\<close> by code_simp
  have h7: \<open>json_loads ''{"uuid":"a"'' = Inl JSONDecodeError\<close> by code_simp
  have h8: \<open>\<not> startswith (strip ''{"uuid":"a"'') ''[''\<close> by code_simp
  have h9: \<open>json_loads ''[{"uuid":"a"'' = Inl JSONDecodeError\<close> by code_simp
  have h10: \<open>\<not> str_in ''},'' (strip ''[{"uuid":"a"'')\<close> by code_simp
  note c = salvage_recovers [of json_loads, THEN conjunct2, rule_format, OF conjI, OF h1 h2]
  note g = salvage_recovers [of json_loads truncated_text, THEN conjunct1, rule_format, OF h1,
      THEN conjunct2, THEN conjunct2, rule_format, OF conjI [OF h3 conjI [OF h4 h5]]]
  note a = salvage_recovers [of json_loads \<open>''{"uuid":"a"''\<close>, THEN conjunct1, rule_format, OF h7,
      THEN conjunct1, rule_format, OF h8]
  note b = salvage_recovers [of json_loads \<open>''[{"uuid":"a"''\<close>, THEN conjunct1, rule_format, OF h9,
      THEN conjunct2, THEN conjunct1, rule_format, OF h10]
  show ?thesis
    using h1 h2 h3 h4 h5 h6 h7 h8 h9 h10 a b c g by simp
qed

section \<open>The two loaders\<close>

lemma load_file_Missing [simp]:
  "load_file_server loads Missing = []" "load_file_split loads Missing = []"
  by (simp_all add: load_file_server_def load_file_split_def)

lemma strip_decompose:
  "\<exists>ws. (\<forall>c\<in>set ws. isspace c) \<and> content = takeWhile isspace content @ strip content @ ws"
proof -
  let ?t = "dropWhile isspace content"
  have "rev ?t = takeWhile isspace (rev ?t) @ dropWhile isspace (rev ?t)" by simp
  then have "?t = rev (dropWhile isspace (rev ?t)) @ rev (takeWhile isspace (rev ?t))"
    by (metis rev_append rev_rev_ident)
  then have "content = takeWhile isspace content @ strip content @ rev (takeWhile isspace (rev ?t))"
    unfolding strip_def by (metis takeWhile_dropWhile_id)
  moreover have "\<forall>c\<in>set (rev (takeWhile isspace (rev ?t))). isspace c"
    by (auto dest: set_takeWhileD)
  ultimately show ?thesis by blast
qed

lemma fixed_split_server:
  "fixed_split content = map_option (\<lambda>fixed. takeWhile isspace content @ fixed) (fixed_server content)"
proof -
  let ?ws1 = "takeWhile isspace content" and ?st = "strip content"
  obtain ws2 where ws2: "\<forall>c\<in>set ws2. isspace c" and c: "content = ?ws1 @ ?st @ ws2"
    using strip_decompose by blast
  have ws1: "\<forall>c\<in>set ?ws1. isspace c" by (auto dest: set_takeWhileD)
  have "rfind content ''},'' = rfind_from 0 (?ws1 @ ?st @ ws2) ''},''"
    unfolding rfind_def by (rule arg_cong [where f = "\<lambda>s. rfind_from 0 s ''},''", OF c])
  also have "\<dots> = rfind_from (0 + length ?ws1) ?st ''},''"
    using ws1 ws2 by (simp only: rfind_from_ws_prefix rfind_from_ws_suffix)
  finally have lc: "rfind content ''},'' =
      (if 0 \<le> rfind ?st ''},'' then rfind ?st ''},'' + int (length ?ws1) else - 1)"
    unfolding rfind_def using rfind_from_shift [of 0 "length ?ws1" ?st "''},''"] by simp
  show ?thesis
  proof (cases "startswith ?st ''[''")
    case False
    then show ?thesis
      by (simp add: fixed_split_def fixed_server_def Let_def)
  next
    case sw: True
    show ?thesis
    proof (cases "0 \<le> rfind ?st ''},''")
      case False
      with lc have "rfind content ''},'' = - 1" by simp
      with False show ?thesis
        by (simp add: fixed_split_def fixed_server_def Let_def)
    next
      case True
      then obtain pre rest where st: "?st = pre @ ''},'' @ rest"
        and r: "rfind ?st ''},'' = int (length pre)"
        unfolding rfind_def using rfind_from_found [of 0 ?st "''},''"] by auto
      from sw st have "pre \<noteq> []" by (auto simp: startswith_def)
      then have pre: "0 < int (length pre)" by simp
      have lc': "rfind content ''},'' = int (length pre) + int (length ?ws1)"
        using lc r by simp
      have "take (length ?ws1 + (length pre + 1)) content
          = take (length ?ws1 + (length pre + 1)) (?ws1 @ (pre @ ''},'' @ rest) @ ws2)"
        by (rule arg_cong [where f = "take (length ?ws1 + (length pre + 1))"])
           (use c st in \<open>simp only:\<close>)
      then have t1: "take (length ?ws1 + (length pre + 1)) content = ?ws1 @ pre @ ''}''"
        by simp
      have "nat (rfind content ''},'' + 1) = length ?ws1 + (length pre + 1)"
        unfolding lc' by simp
      with t1 have t2: "take (nat (rfind content ''},'' + 1)) content = ?ws1 @ pre @ ''}''"
        by (simp only:)
      have "take (length pre + 1) ?st = take (length pre + 1) (pre @ ''},'' @ rest)"
        by (rule arg_cong [where f = "take (length pre + 1)"]) (rule st)
      then have "take (length pre + 1) ?st = pre @ ''}''" by simp
      moreover have "nat (rfind ?st ''},'' + 1) = length pre + 1"
        unfolding r by simp
      ultimately have t3: "take (nat (rfind ?st ''},'' + 1)) ?st = pre @ ''}''"
        by (simp only:)
      have pos: "0 < rfind content ''},''" "0 < rfind ?st ''},''"
        using pre lc' r by linarith+
      have "fixed_split content = Some ((?ws1 @ pre @ ''}'') @ '']'')"
        unfolding fixed_split_def Let_def t2 using sw pos by simp
      moreover have "fixed_server content = Some ((pre @ ''}'') @ '']'')"
        unfolding fixed_server_def Let_def t3 using sw pos by simp
      ultimately show ?thesis by simp
    qed
  qed
qed

lemma loaders_agree:
  assumes "\<And>fixed. fixed_server content = Some fixed
             \<Longrightarrow> loads (takeWhile isspace content @ fixed) = loads fixed"
  shows "load_file_split loads (Content content) = load_file_server loads (Content content)"
proof -
  have "salvage_split loads content = salvage_server loads content"
    using assms
    by (cases "fixed_server content")
       (simp_all add: salvage_split_def salvage_server_def fixed_split_server reparse_def)
  then show ?thesis
    by (simp add: load_file_split_def load_file_server_def split: sum.splits loads_error.splits)
qed

lemma form_feed_server: "load_file_server json_loads (Content form_feed_text) = [record_a]"
  by code_simp

lemma form_feed_split: "load_file_split json_loads (Content form_feed_text) = []"
  by code_simp

text \<open>
  C7. The two loaders do not always produce the same records. On a file whose text is the
  truncated text of the salvage scenario behind a form feed, the parser rejects the text;
  the loader of the server strips the form feed before it cuts, and recovers the first
  record; the loader of the partitioner cuts the text as read, the repaired text still
  starts with the form feed, the parser rejects it again, and the file is dropped.
  (Lemma \<open>loaders_agree\<close> above: the loaders agree on every text whose leading white
  space the parser ignores in front of the repaired text.)
\<close>

theorem loaders_differ_on_form_feed:
  "load_all_server json_loads form_feed_files = [record_a] \<and>
   load_all_split json_loads form_feed_files = []"
  by (simp add: load_all_server_def load_all_split_def form_feed_server form_feed_split
      form_feed_files_def)

section \<open>Flattening a message whose content is a string\<close>

lemma map_filter_item_part_chars:
  "List.map_filter (item_part repr) (map (\<lambda>c. JStr [c]) s) = map (\<lambda>c. JStr [c]) s"
  by (induction s) (simp_all add: List.map_filter_simps item_part_def)

lemma length_join_chars:
  "length (join newline (map (\<lambda>c. [c]) s)) = 2 * length s - 1"
proof (induction s rule: induct_list012)
  case (3 c d s)
  then show ?case by (simp add: newline_def)
qed simp_all

lemma py_join_strings: "py_join sep (map JStr ss) = Inr (join sep ss)"
  by (simp add: py_join_def list_all_iff comp_def)

text \<open>
  C10. When the \<^verbatim>\<open>content\<close> of a message is a string \<open>s\<close>, the flattening iterates
  over \<open>s\<close>: the parts are the \<^verbatim>\<open>text\<close> of the message, if it has one that is not
  empty, and then every character of \<open>s\<close> as a part of its own, joined by line feeds.
  With no \<^verbatim>\<open>text\<close> field the result is the characters of \<open>s\<close> with a line feed
  between every two of them, \<open>2 * length s - 1\<close> characters for a string that is not
  empty, and not \<open>s\<close> itself.
\<close>

theorem string_content_is_split:
  "(map_of msg ''content'' = Some (JStr s) \<longrightarrow>
      format_message_content repr msg =
        py_join newline
          ((case map_of msg ''text'' of None \<Rightarrow> [] | Some t \<Rightarrow> if truthy t then [t] else [])
           @ map (\<lambda>c. JStr [c]) s)) \<and>
   (map_of msg ''content'' = Some (JStr s) \<and> map_of msg ''text'' = None \<longrightarrow>
      format_message_content repr msg = Inr (join newline (map (\<lambda>c. [c]) s))) \<and>
   length (join newline (map (\<lambda>c. [c]) s)) = 2 * length s - 1"
proof (intro conjI impI)
  assume c: "map_of msg ''content'' = Some (JStr s)"
  show g: "format_message_content repr msg =
        py_join newline
          ((case map_of msg ''text'' of None \<Rightarrow> [] | Some t \<Rightarrow> if truthy t then [t] else [])
           @ map (\<lambda>c. JStr [c]) s)"
    by (cases "s = []")
       (simp_all add: format_message_content_def c map_filter_item_part_chars
         List.map_filter_simps)
next
  assume "map_of msg ''content'' = Some (JStr s) \<and> map_of msg ''text'' = None"
  then have c: "map_of msg ''content'' = Some (JStr s)" and t: "map_of msg ''text'' = None"
    by simp_all
  have "map (\<lambda>c. JStr [c]) s = map JStr (map (\<lambda>c. [c]) s)" by simp
  then have "py_join newline (map (\<lambda>c. JStr [c]) s) = Inr (join newline (map (\<lambda>c. [c]) s))"
    by (simp only: py_join_strings)
  then show "format_message_content repr msg = Inr (join newline (map (\<lambda>c. [c]) s))"
    by (cases "s = []")
       (simp_all add: format_message_content_def c t map_filter_item_part_chars
         List.map_filter_simps)
next
  show "length (join newline (map (\<lambda>c. [c]) s)) = 2 * length s - 1"
    by (rule length_join_chars)
qed

theorem string_content_is_split_witness:
  "map_of [(''content'', JStr ''hey'')] ''content'' = Some (JStr ''hey'') \<and>
   map_of [(''content'', JStr ''hey'')] ''text'' = None \<and>
   format_message_content (\<lambda>v. []) [(''content'', JStr ''hey'')]
     = Inr [CHR ''h'', CHR 0x0A, CHR ''e'', CHR 0x0A, CHR ''y'']"
  using string_content_is_split [of "[(''content'', JStr ''hey'')]" "''hey''" "\<lambda>v. []",
      THEN conjunct2, THEN conjunct1]
  by (simp add: newline_def)

section \<open>The sort\<close>

lemma sort_desc_sorted: "sorted_wrt (\<lambda>a b. key b \<le> key a) (sort_desc key xs)"
proof -
  have "sorted (map key (sort_key key (rev xs)))"
    by (rule sorted_sort_key)
  then have "sorted_wrt (\<lambda>x y. key x \<le> key y) (sort_key key (rev xs))"
    by (simp only: sorted_map)
  then show ?thesis
    by (simp only: sort_desc_def sorted_wrt_rev)
qed

lemma mset_sort_desc: "mset (sort_desc key xs) = mset xs"
  by (simp add: sort_desc_def)

lemma py_sort_desc_mset: "py_sort_desc key xs = Inr ys \<Longrightarrow> mset ys = mset xs"
  by (auto simp: py_sort_desc_def mset_sort_desc split: if_splits)

lemma py_sort_desc_strings:
  assumes "\<forall>x\<in>set xs. is_str (key x)"
  shows "py_sort_desc key xs = Inr (sort_desc (\<lambda>x. str_of (key x)) xs)"
proof (cases "length xs \<le> 1")
  case True
  then have "xs = [] \<or> (\<exists>x. xs = [x])"
    by (cases xs) auto
  then show ?thesis
    by (auto simp: py_sort_desc_def sort_desc_def)
next
  case False
  with assms show ?thesis
    by (simp add: py_sort_desc_def list_all_iff)
qed

lemma py_sort_desc_sorted:
  assumes "py_sort_desc key xs = Inr ys" and "\<forall>x\<in>set xs. is_str (key x)"
  shows "sorted_wrt (\<lambda>a b. str_of (key b) \<le> str_of (key a)) ys"
  using assms py_sort_desc_strings [OF assms(2)] sort_desc_sorted [of "\<lambda>x. str_of (key x)" xs]
  by simp

section \<open>Packing into chunks\<close>

lemma foldl_pack_step:
  "current_size st = chunk_bytes sz (current_chunk st) \<Longrightarrow>
   finish (foldl (pack_step sz) st xs) = chunks st @ pack_from sz (current_chunk st) xs"
proof (induction xs arbitrary: st)
  case Nil
  then show ?case by (simp add: finish_def)
next
  case (Cons x xs)
  have "current_size (pack_step sz st x) = chunk_bytes sz (current_chunk (pack_step sz st x))"
    using Cons.prems by (simp add: pack_step_def Let_def)
  from Cons.IH [OF this] show ?case
    using Cons.prems by (simp add: pack_step_def Let_def)
qed

lemma pack_pack_from: "pack sz convs = pack_from sz [] convs"
  using foldl_pack_step [of "\<lparr>chunks = [], current_chunk = [], current_size = 0\<rparr>" sz convs]
  by (simp add: pack_def finish_def Let_def)

lemma concat_pack_from: "concat (pack_from sz cur xs) = cur @ xs"
  by (induction xs arbitrary: cur) simp_all

lemma pack_from_nonempty: "c \<in> set (pack_from sz cur xs) \<Longrightarrow> c \<noteq> []"
  by (induction xs arbitrary: cur) (auto split: if_splits)

lemma pack_from_bounded:
  "cur = [] \<or> length cur = 1 \<or> chunk_bytes sz cur \<le> MAX_CHUNK_SIZE \<Longrightarrow>
   c \<in> set (pack_from sz cur xs) \<Longrightarrow> length c = 1 \<or> chunk_bytes sz c \<le> MAX_CHUNK_SIZE"
proof (induction xs arbitrary: cur)
  case Nil
  then show ?case by (auto split: if_splits)
next
  case (Cons x xs)
  show ?case
  proof (cases "chunk_bytes sz cur + sz x > MAX_CHUNK_SIZE \<and> cur \<noteq> []")
    case True
    with Cons.prems have "c = cur \<or> c \<in> set (pack_from sz [x] xs)" by auto
    then show ?thesis
    proof
      assume "c = cur" with True Cons.prems(1) show ?thesis by auto
    next
      assume "c \<in> set (pack_from sz [x] xs)"
      with Cons.IH [of "[x]"] show ?thesis by simp
    qed
  next
    case False
    with Cons.prems have c: "c \<in> set (pack_from sz (cur @ [x]) xs)" by auto
    from False have "cur @ [x] = [] \<or> length (cur @ [x]) = 1 \<or> chunk_bytes sz (cur @ [x]) \<le> MAX_CHUNK_SIZE"
      by auto
    from Cons.IH [OF this c] show ?thesis .
  qed
qed

lemma hd_pack_from: "cur \<noteq> [] \<Longrightarrow> pack_from sz cur xs \<noteq> [] \<and> hd (hd (pack_from sz cur xs)) = hd cur"
  by (induction xs arbitrary: cur) auto

lemma pack_from_greedy:
  "pack_from sz cur xs = pre @ c # d # post \<Longrightarrow> MAX_CHUNK_SIZE < chunk_bytes sz c + sz (hd d)"
proof (induction xs arbitrary: cur pre)
  case Nil
  then show ?case by (auto split: if_splits simp: Cons_eq_append_conv)
next
  case (Cons x xs)
  show ?case
  proof (cases "chunk_bytes sz cur + sz x > MAX_CHUNK_SIZE \<and> cur \<noteq> []")
    case True
    with Cons.prems have eq: "cur # pack_from sz [x] xs = pre @ c # d # post" by simp
    show ?thesis
    proof (cases pre)
      case Nil
      with eq have "c = cur" and "pack_from sz [x] xs = d # post" by simp_all
      with hd_pack_from [of "[x]" sz xs] have "hd d = x" by simp
      with True \<open>c = cur\<close> show ?thesis by simp
    next
      case (Cons p pre')
      with eq have "pack_from sz [x] xs = pre' @ c # d # post" by simp
      from Cons.IH [OF this] show ?thesis .
    qed
  next
    case False
    with Cons.prems have "pack_from sz (cur @ [x]) xs = pre @ c # d # post" by auto
    from Cons.IH [OF this] show ?thesis .
  qed
qed


text \<open>
  C4. The chunks that the packing loop makes of a sequence of records: put end to end
  they are the sequence; no chunk is empty; a chunk of more than one record is within
  \<open>MAX_CHUNK_SIZE\<close>; and each chunk but the last is followed by a chunk whose first
  record would have taken it over \<open>MAX_CHUNK_SIZE\<close>, so a new chunk is started exactly
  when the next record does not fit in a chunk that has records, and starts with that
  record. A single record, of any size, is one chunk. The chunks that
  \<^verbatim>\<open>split_conversations\<close> writes are the chunks of the sorted records: none is empty.
\<close>

theorem pack_greedy:
  "concat (pack sz convs) = convs \<and>
   (\<forall>c\<in>set (pack sz convs).
      c \<noteq> [] \<and> (length c = 1 \<or> sum_list (map sz c) \<le> MAX_CHUNK_SIZE)) \<and>
   (\<forall>pre c d post. pack sz convs = pre @ c # d # post \<longrightarrow>
      MAX_CHUNK_SIZE < sum_list (map sz c) + sz (hd d)) \<and>
   pack sz [x] = [[x]] \<and>
   (\<forall>cs. split_conversations loads fs sz = Inr cs \<longrightarrow>
      (\<forall>c\<in>set cs. c \<noteq> []) \<and>
      sort_conversations (load_all_split loads fs) = Inr (concat cs))"
proof (intro conjI ballI allI impI)
  show "concat (pack sz convs) = convs"
    by (simp add: pack_pack_from concat_pack_from)
next
  fix c assume "c \<in> set (pack sz convs)"
  then have "c \<in> set (pack_from sz [] convs)"
    by (simp only: pack_pack_from)
  then show "c \<noteq> []"
    by (rule pack_from_nonempty)
next
  fix c assume "c \<in> set (pack sz convs)"
  then have "c \<in> set (pack_from sz [] convs)"
    by (simp only: pack_pack_from)
  with pack_from_bounded [of "[]" sz c convs]
  show "length c = 1 \<or> sum_list (map sz c) \<le> MAX_CHUNK_SIZE"
    by blast
next
  fix pre c d post assume "pack sz convs = pre @ c # d # post"
  then have "pack_from sz [] convs = pre @ c # d # post"
    by (simp only: pack_pack_from)
  then show "MAX_CHUNK_SIZE < sum_list (map sz c) + sz (hd d)"
    by (rule pack_from_greedy)
next
  show "pack sz [x] = [[x]]"
    by (simp add: pack_pack_from)
next
  fix cs c assume "split_conversations loads fs sz = Inr cs" and c: "c \<in> set cs"
  then obtain ordered where "cs = pack_from sz [] ordered"
    by (cases "sort_conversations (load_all_split loads fs)")
       (auto simp: split_conversations_def pack_pack_from)
  with c show "c \<noteq> []"
    using pack_from_nonempty by blast
next
  fix cs assume "split_conversations loads fs sz = Inr cs"
  then show "sort_conversations (load_all_split loads fs) = Inr (concat cs)"
    by (cases "sort_conversations (load_all_split loads fs)")
       (auto simp: split_conversations_def pack_pack_from concat_pack_from)
qed

lemma three_loaded: "load_all_split json_loads three_files = [conv_20b, conv_10, conv_20a]"
  by code_simp

lemma three_sorted: "sort_conversations [conv_20b, conv_10, conv_20a] = Inr [conv_20a, conv_20b, conv_10]"
  by code_simp

lemma three_packed: "pack sample_size [conv_20a, conv_20b, conv_10] = [[conv_20a, conv_20b], [conv_10]]"
  by (simp add: pack_def pack_step_def MAX_CHUNK_SIZE_def sample_size_def conv_20a_def
      conv_20b_def conv_10_def)

lemma three_split:
  "split_conversations json_loads three_files sample_size = Inr [[conv_20a, conv_20b], [conv_10]]"
  by (simp add: split_conversations_def three_loaded three_sorted three_packed)

theorem pack_greedy_witness:
  "pack sample_size [conv_20a, conv_20b, conv_10] = [] @ [conv_20a, conv_20b] # [conv_10] # [] \<and>
   MAX_CHUNK_SIZE < sum_list (map sample_size [conv_20a, conv_20b]) + sample_size (hd [conv_10]) \<and>
   [conv_20a, conv_20b] \<in> set (pack sample_size [conv_20a, conv_20b, conv_10]) \<and>
   sum_list (map sample_size [conv_20a, conv_20b]) \<le> MAX_CHUNK_SIZE \<and>
   split_conversations json_loads three_files sample_size = Inr [[conv_20a, conv_20b], [conv_10]] \<and>
   sort_conversations (load_all_split json_loads three_files) = Inr [conv_20a, conv_20b, conv_10]"
proof -
  note t = pack_greedy [of sample_size "[conv_20a, conv_20b, conv_10]" conv_10 json_loads three_files]
  have p: "pack sample_size [conv_20a, conv_20b, conv_10] = [] @ [conv_20a, conv_20b] # [conv_10] # []"
    by (simp add: three_packed)
  have m: "[conv_20a, conv_20b] \<in> set (pack sample_size [conv_20a, conv_20b, conv_10])"
    by (simp add: three_packed)
  note g = t [THEN conjunct2, THEN conjunct2, THEN conjunct1, rule_format, OF p]
  note b = t [THEN conjunct2, THEN conjunct1, rule_format, OF m]
  note s = t [THEN conjunct2, THEN conjunct2, THEN conjunct2, THEN conjunct2, rule_format,
      OF three_split]
  from b have "sum_list (map sample_size [conv_20a, conv_20b]) \<le> MAX_CHUNK_SIZE"
    by simp
  with p g m s three_split show ?thesis
    by simp
qed

section \<open>The index\<close>

lemma key_eq_refl [simp]: "key_eq k k"
  by (simp add: key_eq_def)

lemma key_eq_sym: "key_eq a b \<Longrightarrow> key_eq b a"
  by (simp add: key_eq_def)

lemma key_eq_trans: "key_eq a b \<Longrightarrow> key_eq b c \<Longrightarrow> key_eq a c"
  by (simp add: key_eq_def)

lemma dict_lookup_dict_set:
  "dict_lookup (dict_set k v ps) k' = (if key_eq k k' then Some v else dict_lookup ps k')"
  by (induction ps) (auto simp: key_eq_def)

lemma norm_keys_dict_set:
  "set (map (\<lambda>p. key_norm (fst p)) (dict_set k v ps)) = insert (key_norm k) (set (map (\<lambda>p. key_norm (fst p)) ps))"
  by (induction ps) (force simp: key_eq_def split: if_splits)+

lemma distinct_dict_set:
  "distinct (map (\<lambda>p. key_norm (fst p)) ps) \<Longrightarrow> distinct (map (\<lambda>p. key_norm (fst p)) (dict_set k v ps))"
proof (induction ps)
  case Nil
  then show ?case by simp
next
  case (Cons p ps)
  obtain k' v' where p: "p = (k', v')" by (cases p)
  show ?case
  proof (cases "key_eq k' k")
    case True
    with Cons.prems p show ?thesis by simp
  next
    case False
    then have "key_norm k' \<noteq> key_norm k" by (simp add: key_eq_def)
    with Cons p False show ?thesis
      using norm_keys_dict_set [of k v ps] by auto
  qed
qed

lemma set_dict_set:
  "(k', d) \<in> set (dict_set k v ps) \<Longrightarrow> (k', d) \<in> set ps \<or> (d = v \<and> key_eq k' k)"
  by (induction ps) (auto split: if_splits)

lemma index_step_cases:
  assumes "index_step c tbl = Inr tbl'"
  shows "tbl' = tbl \<or> (\<exists>d k. c = JObj d \<and> map_of d ''uuid'' = Some k \<and> hashable k
            \<and> tbl' = dict_set k d tbl)"
  using assms by (cases c) (auto split: option.splits if_splits)

lemma index_step_obj:
  assumes "index_step (JObj d) tbl = Inr tbl'" and "map_of d ''uuid'' = Some k"
  shows "tbl' = dict_set k d tbl"
  using assms by (auto split: if_splits)

lemma build_index_append:
  "build_index (xs @ ys) tbl =
     (case build_index xs tbl of (None, c') \<Rightarrow> build_index ys c' | (Some e, c') \<Rightarrow> (Some e, c'))"
  by (induction xs arbitrary: tbl) (auto split: sum.splits)

lemma build_index_distinct:
  "build_index xs tbl = (e, store) \<Longrightarrow> distinct (map (\<lambda>p. key_norm (fst p)) tbl)
     \<Longrightarrow> distinct (map (\<lambda>p. key_norm (fst p)) store)"
proof (induction xs arbitrary: tbl)
  case Nil
  then show ?case by simp
next
  case (Cons c xs)
  show ?case
  proof (cases "index_step c tbl")
    case (Inl err)
    with Cons.prems show ?thesis by simp
  next
    case (Inr tbl')
    with Cons.prems have b: "build_index xs tbl' = (e, store)" by simp
    from index_step_cases [OF Inr] Cons.prems(2)
    have "distinct (map (\<lambda>p. key_norm (fst p)) tbl')"
      by (auto intro: distinct_dict_set)
    from Cons.IH [OF b this] show ?thesis .
  qed
qed

lemma build_index_mem:
  "build_index xs tbl = (e, store) \<Longrightarrow> (k, d) \<in> set store
     \<Longrightarrow> (k, d) \<in> set tbl \<or>
         (JObj d \<in> set xs \<and> (\<exists>k'. map_of d ''uuid'' = Some k' \<and> key_eq k k'))"
proof (induction xs arbitrary: tbl)
  case Nil
  then show ?case by simp
next
  case (Cons c xs)
  show ?case
  proof (cases "index_step c tbl")
    case (Inl err)
    with Cons.prems show ?thesis by simp
  next
    case (Inr tbl')
    with Cons.prems have b: "build_index xs tbl' = (e, store)" by simp
    from Cons.IH [OF b Cons.prems(2)]
    consider "(k, d) \<in> set tbl'"
      | "JObj d \<in> set xs \<and> (\<exists>k'. map_of d ''uuid'' = Some k' \<and> key_eq k k')"
      by blast
    then show ?thesis
    proof cases
      case 1
      from index_step_cases [OF Inr] show ?thesis
      proof
        assume "tbl' = tbl"
        with 1 show ?thesis by simp
      next
        assume "\<exists>d' k'. c = JObj d' \<and> map_of d' ''uuid'' = Some k' \<and> hashable k'
            \<and> tbl' = dict_set k' d' tbl"
        then obtain d' k' where c: "c = JObj d'" and u: "map_of d' ''uuid'' = Some k'"
          and c': "tbl' = dict_set k' d' tbl" by blast
        from 1 c' set_dict_set [of k d k' d' tbl]
        have "(k, d) \<in> set tbl \<or> (d = d' \<and> key_eq k k')" by blast
        with c u show ?thesis by auto
      qed
    next
      case 2
      then show ?thesis by auto
    qed
  qed
qed

lemma build_index_untouched:
  "build_index post tbl = (None, store)
     \<Longrightarrow> \<forall>d' k'. JObj d' \<in> set post \<and> map_of d' ''uuid'' = Some k' \<longrightarrow> \<not> key_eq k' k
     \<Longrightarrow> dict_lookup store k = dict_lookup tbl k"
proof (induction post arbitrary: tbl)
  case Nil
  then show ?case by simp
next
  case (Cons c post)
  show ?case
  proof (cases "index_step c tbl")
    case (Inl err)
    with Cons.prems show ?thesis by simp
  next
    case (Inr tbl')
    with Cons.prems have b: "build_index post tbl' = (None, store)" by simp
    have "dict_lookup store k = dict_lookup tbl' k"
      using Cons.IH [OF b] Cons.prems(2) by fastforce
    moreover have "dict_lookup tbl' k = dict_lookup tbl k"
      using index_step_cases [OF Inr]
    proof
      assume "tbl' = tbl"
      then show ?thesis by simp
    next
      assume "\<exists>d ka. c = JObj d \<and> map_of d ''uuid'' = Some ka \<and> hashable ka
            \<and> tbl' = dict_set ka d tbl"
      then obtain d ka where c: "c = JObj d" and u: "map_of d ''uuid'' = Some ka"
        and t: "tbl' = dict_set ka d tbl" by blast
      from Cons.prems(2) c u have "\<not> key_eq ka k" by auto
      with t show ?thesis by (simp add: dict_lookup_dict_set)
    qed
    ultimately show ?thesis by simp
  qed
qed

lemma build_index_later_wins:
  assumes "build_index (pre @ JObj d # post) tbl = (None, store)"
    and "map_of d ''uuid'' = Some k"
    and "\<forall>d' k'. JObj d' \<in> set post \<and> map_of d' ''uuid'' = Some k' \<longrightarrow> \<not> key_eq k' k"
  shows "dict_lookup store k = Some d"
proof -
  obtain e1 c1 where b1: "build_index pre tbl = (e1, c1)" by (cases "build_index pre tbl")
  with assms(1) have e1: "e1 = None" and b2: "build_index (JObj d # post) c1 = (None, store)"
    by (auto simp: build_index_append split: option.splits)
  from b2 obtain c2 where s: "index_step (JObj d) c1 = Inr c2"
    and b3: "build_index post c2 = (None, store)"
    by (cases "index_step (JObj d) c1") auto
  from index_step_obj [OF s assms(2)] have "dict_lookup c2 k = Some d"
    by (simp add: dict_lookup_dict_set)
  with build_index_untouched [OF b3 assms(3)] show ?thesis by simp
qed

lemma build_index_total:
  "\<forall>c\<in>set convs. \<exists>d. c = JObj d \<and> (\<forall>k. map_of d ''uuid'' = Some k \<longrightarrow> hashable k)
     \<Longrightarrow> fst (build_index convs tbl) = None"
proof (induction convs arbitrary: tbl)
  case Nil
  then show ?case by simp
next
  case (Cons c convs)
  then obtain d where c: "c = JObj d" and h: "\<forall>k. map_of d ''uuid'' = Some k \<longrightarrow> hashable k"
    by auto
  then obtain tbl' where "index_step c tbl = Inr tbl'"
    by (cases "map_of d ''uuid''") auto
  with Cons show ?case by simp
qed

lemma traverse_length: "traverse f xs = Inr ys \<Longrightarrow> length ys = length xs"
  by (induction xs arbitrary: ys) (auto split: sum.splits)

lemma sort_conversations_mset:
  assumes "sort_conversations convs = Inr ordered"
  shows "mset ordered = mset convs"
proof -
  from assms obtain keys ys where k: "traverse created_at_of convs = Inr keys"
    and s: "py_sort_desc fst (zip keys convs) = Inr ys" and o: "ordered = map snd ys"
    by (auto simp: sort_conversations_def split: sum.splits)
  from py_sort_desc_mset [OF s] have "mset (map snd ys) = mset (map snd (zip keys convs))"
    by (metis mset_map)
  with traverse_length [OF k] o show ?thesis by simp
qed


lemma dict_lookup_mem:
  "distinct (map (\<lambda>p. key_norm (fst p)) ps) \<Longrightarrow> (k', d') \<in> set ps \<Longrightarrow> key_eq k' k
     \<Longrightarrow> dict_lookup ps k = Some d'"
  by (induction ps) (force simp: key_eq_def)+

lemma load_conversations_build:
  assumes "load_conversations loads fs st = (Inr store, st')" and "cache st = []"
  shows "build_index (load_all_server loads fs) [] = (None, store)"
  using assms
  by (auto simp: load_conversations_def Let_def split: prod.splits option.splits)

text \<open>
  C3. Building the index from records that are dictionaries (with an identifier that can
  be a key, or with none) raises nothing. In the index that is built no two entries have
  the same identifier; for a record with an identifier that no later record shares, the
  index holds that record under the identifier, and no other entry has it, so of the
  records sharing an identifier the last loaded one is kept; and every entry is a loaded
  record that has the identifier, so records without one are left out. The store that
  \<^verbatim>\<open>load_conversations\<close> returns in a new process is this index of the loaded
  records. The partitioner keeps every record: its sorted sequence has the loaded
  records with their multiplicities, and so have its chunks.
\<close>

theorem store_keeps_latest:
  "((\<forall>c\<in>set convs. \<exists>d. c = JObj d \<and> (\<forall>k. map_of d ''uuid'' = Some k \<longrightarrow> hashable k))
      \<longrightarrow> fst (build_index convs []) = None) \<and>
   (build_index convs [] = (None, store) \<longrightarrow>
      distinct (map (\<lambda>p. key_norm (fst p)) store) \<and>
      (\<forall>pre d post k.
         convs = pre @ JObj d # post \<and> map_of d ''uuid'' = Some k \<and>
         (\<forall>d' k'. JObj d' \<in> set post \<and> map_of d' ''uuid'' = Some k' \<longrightarrow> \<not> key_eq k' k)
         \<longrightarrow> dict_lookup store k = Some d \<and>
             (\<forall>k' d'. (k', d') \<in> set store \<and> key_eq k' k \<longrightarrow> d' = d)) \<and>
      (\<forall>k d. (k, d) \<in> set store \<longrightarrow>
         JObj d \<in> set convs \<and> (\<exists>k'. map_of d ''uuid'' = Some k' \<and> key_eq k k'))) \<and>
   (\<forall>st'. load_conversations loads fs initial_state = (Inr store, st') \<longrightarrow>
      build_index (load_all_server loads fs) [] = (None, store)) \<and>
   (\<forall>ordered. sort_conversations convs = Inr ordered \<longrightarrow> mset ordered = mset convs) \<and>
   (\<forall>cs. split_conversations loads fs sz = Inr cs \<longrightarrow>
      mset (concat cs) = mset (load_all_split loads fs))"
proof (intro conjI impI allI)
  assume "\<forall>c\<in>set convs. \<exists>d. c = JObj d \<and> (\<forall>k. map_of d ''uuid'' = Some k \<longrightarrow> hashable k)"
  then show "fst (build_index convs []) = None"
    by (rule build_index_total)
next
  assume "build_index convs [] = (None, store)"
  then show "distinct (map (\<lambda>p. key_norm (fst p)) store)"
    by (rule build_index_distinct) simp
next
  fix pre d post k
  assume b: "build_index convs [] = (None, store)"
    and h: "convs = pre @ JObj d # post \<and> map_of d ''uuid'' = Some k \<and>
         (\<forall>d' k'. JObj d' \<in> set post \<and> map_of d' ''uuid'' = Some k' \<longrightarrow> \<not> key_eq k' k)"
  from h b have b': "build_index (pre @ JObj d # post) [] = (None, store)" by simp
  from h have u: "map_of d ''uuid'' = Some k"
    and n: "\<forall>d' k'. JObj d' \<in> set post \<and> map_of d' ''uuid'' = Some k' \<longrightarrow> \<not> key_eq k' k"
    by simp_all
  have l: "dict_lookup store k = Some d"
    using b' u n by (rule build_index_later_wins)
  then show "dict_lookup store k = Some d" .
  have dist: "distinct (map (\<lambda>p. key_norm (fst p)) store)"
    using b by (rule build_index_distinct) simp
  fix k' d'
  assume "(k', d') \<in> set store \<and> key_eq k' k"
  then show "d' = d"
    using dict_lookup_mem [OF dist, of k' d' k] l by auto
next
  fix k d
  assume b: "build_index convs [] = (None, store)" and m: "(k, d) \<in> set store"
  from build_index_mem [OF b m]
  show "JObj d \<in> set convs" and "\<exists>k'. map_of d ''uuid'' = Some k' \<and> key_eq k k'"
    by simp_all
next
  fix st'
  assume "load_conversations loads fs initial_state = (Inr store, st')"
  then show "build_index (load_all_server loads fs) [] = (None, store)"
    by (rule load_conversations_build) (simp add: initial_state_def)
next
  fix ordered
  assume "sort_conversations convs = Inr ordered"
  then show "mset ordered = mset convs"
    by (rule sort_conversations_mset)
next
  fix cs
  assume "split_conversations loads fs sz = Inr cs"
  then obtain ordered where o: "sort_conversations (load_all_split loads fs) = Inr ordered"
    and cs: "cs = pack sz ordered"
    by (cases "sort_conversations (load_all_split loads fs)")
       (auto simp: split_conversations_def)
  from cs have "concat cs = ordered"
    by (simp add: pack_pack_from concat_pack_from)
  with sort_conversations_mset [OF o] show "mset (concat cs) = mset (load_all_split loads fs)"
    by simp
qed

lemma duplicate_index:
  "build_index [JObj old_a, JObj no_id, JObj new_a] [] = (None, [(JStr ''a'', new_a)])"
  by code_simp

lemma duplicate_loaded:
  "load_conversations json_loads duplicate_files initial_state
     = (Inr [(JStr ''a'', new_a)], \<lparr>cache = [(JStr ''a'', new_a)], reads = [1, 2]\<rparr>)"
  by code_simp

lemma duplicate_sorted:
  "sort_conversations [JObj old_a, JObj no_id, JObj new_a] = Inr [JObj old_a, JObj no_id, JObj new_a]"
  by code_simp

lemma duplicate_merged:
  "load_all_split json_loads duplicate_files = [JObj old_a, JObj no_id, JObj new_a]"
  by code_simp

lemma duplicate_split:
  "split_conversations json_loads duplicate_files (\<lambda>c. 1)
     = Inr [[JObj old_a, JObj no_id, JObj new_a]]"
  by (simp add: split_conversations_def duplicate_merged duplicate_sorted pack_def pack_step_def
      MAX_CHUNK_SIZE_def)

theorem store_keeps_latest_witness:
  "fst (build_index [JObj old_a, JObj no_id, JObj new_a] []) = None \<and>
   build_index [JObj old_a, JObj no_id, JObj new_a] [] = (None, [(JStr ''a'', new_a)]) \<and>
   distinct (map (\<lambda>p. key_norm (fst p)) [(JStr ''a'', new_a)]) \<and>
   [JObj old_a, JObj no_id, JObj new_a] = [JObj old_a, JObj no_id] @ JObj new_a # [] \<and>
   map_of new_a ''uuid'' = Some (JStr ''a'') \<and>
   map_of old_a ''uuid'' = Some (JStr ''a'') \<and>
   dict_lookup [(JStr ''a'', new_a)] (JStr ''a'') = Some new_a \<and>
   load_conversations json_loads duplicate_files initial_state
     = (Inr [(JStr ''a'', new_a)], \<lparr>cache = [(JStr ''a'', new_a)], reads = [1, 2]\<rparr>) \<and>
   build_index (load_all_server json_loads duplicate_files) [] = (None, [(JStr ''a'', new_a)]) \<and>
   sort_conversations [JObj old_a, JObj no_id, JObj new_a]
     = Inr [JObj old_a, JObj no_id, JObj new_a] \<and>
   split_conversations json_loads duplicate_files (\<lambda>c. 1)
     = Inr [[JObj old_a, JObj no_id, JObj new_a]] \<and>
   mset (concat [[JObj old_a, JObj no_id, JObj new_a]])
     = mset (load_all_split json_loads duplicate_files)"
proof -
  note t = store_keeps_latest [of "[JObj old_a, JObj no_id, JObj new_a]" "[(JStr ''a'', new_a)]"
      json_loads duplicate_files "\<lambda>c. 1"]
  have wf: "\<forall>c\<in>set [JObj old_a, JObj no_id, JObj new_a].
      \<exists>d. c = JObj d \<and> (\<forall>k. map_of d ''uuid'' = Some k \<longrightarrow> hashable k)"
    by (auto simp: old_a_def no_id_def new_a_def)
  have dec: "[JObj old_a, JObj no_id, JObj new_a] = [JObj old_a, JObj no_id] @ JObj new_a # [] \<and>
      map_of new_a ''uuid'' = Some (JStr ''a'') \<and>
      (\<forall>d' k'. JObj d' \<in> set [] \<and> map_of d' ''uuid'' = Some k' \<longrightarrow> \<not> key_eq k' (JStr ''a''))"
    by (simp add: new_a_def)
  have old: "map_of old_a ''uuid'' = Some (JStr ''a'')"
    by (simp add: old_a_def)
  note a = t [THEN conjunct1, THEN mp, OF wf]
  note b = t [THEN conjunct2, THEN conjunct1, THEN mp, OF duplicate_index]
  note c = b [THEN conjunct2, THEN conjunct1, THEN spec, THEN spec, THEN spec, THEN spec,
      THEN mp, OF dec, THEN conjunct1]
  note d = t [THEN conjunct2, THEN conjunct2, THEN conjunct1, THEN spec, THEN mp,
      OF duplicate_loaded]
  note f = t [THEN conjunct2, THEN conjunct2, THEN conjunct2, THEN conjunct2, THEN spec,
      THEN mp, OF duplicate_split]
  show ?thesis
    by (intro conjI)
       (rule a duplicate_index b [THEN conjunct1] dec [THEN conjunct1]
         dec [THEN conjunct2, THEN conjunct1] old c
         duplicate_loaded d duplicate_sorted duplicate_split f)+
qed

section \<open>Loading once\<close>

lemma load_conversations_hit:
  "cache st \<noteq> [] \<Longrightarrow> load_conversations loads fs st = (Inr (cache st), st)"
  by (simp add: load_conversations_def)

lemma load_conversations_miss:
  assumes "cache st = []"
  shows "load_conversations loads fs st =
     (case fst (build_index (load_all_server loads fs) []) of
        None \<Rightarrow> Inr (snd (build_index (load_all_server loads fs) []))
      | Some e \<Rightarrow> Inl e,
      st\<lparr>cache := snd (build_index (load_all_server loads fs) []),
         reads := reads st @ filter (\<lambda>i. fs i \<noteq> Missing) [1, 2, 3, 4]\<rparr>)"
  using assms
  by (simp add: load_conversations_def Let_def split: prod.splits option.splits)

lemma load_conversations_cache:
  assumes "load_conversations loads fs st = (Inr store, st')"
  shows "cache st' = store"
proof (cases "cache st = []")
  case True
  with assms show ?thesis
    by (auto simp: load_conversations_miss split: option.splits)
next
  case False
  with assms show ?thesis
    by (auto simp: load_conversations_hit)
qed

lemma load_conversations_again:
  assumes "load_conversations loads fs st = (Inr store, st')"
  shows "fst (load_conversations loads fs st') = Inr store"
proof (cases "cache st = []")
  case False
  with assms show ?thesis
    by (auto simp: load_conversations_hit)
next
  case True
  with assms have b: "fst (build_index (load_all_server loads fs) []) = None"
    and s: "snd (build_index (load_all_server loads fs) []) = store"
    by (auto simp: load_conversations_miss split: option.splits)
  show ?thesis
  proof (cases "store = []")
    case True
    with load_conversations_cache [OF assms] have "cache st' = []" by simp
    with b s show ?thesis by (simp add: load_conversations_miss)
  next
    case False
    with load_conversations_cache [OF assms] show ?thesis
      by (simp add: load_conversations_hit)
  qed
qed

lemma empty_first:
  "load_conversations json_loads empty_array_files initial_state
     = (Inr [], \<lparr>cache = [], reads = [1]\<rparr>)"
  by code_simp

lemma empty_second:
  "load_conversations json_loads empty_array_files \<lparr>cache = [], reads = [1]\<rparr>
     = (Inr [], \<lparr>cache = [], reads = [1, 1]\<rparr>)"
  by code_simp

lemma after_first: "after_first_load = \<lparr>cache = [], reads = [1]\<rparr>"
  unfolding after_first_load_def empty_first by simp

text \<open>
  C2. A load that returned a store that is not empty is not repeated: the next call of
  \<^verbatim>\<open>load_conversations\<close> returns the same store and leaves the state, with the trace
  of the file reads, as it is. Whatever the store, a call after a load that succeeded
  returns the same store, and the list of conversations is the same the second time. But
  while the store is empty every call loads again and opens every source file that
  exists.
\<close>

theorem load_once_when_nonempty:
  "(load_conversations loads fs st = (Inr store, st') \<and> store \<noteq> [] \<longrightarrow>
      load_conversations loads fs st' = (Inr store, st')) \<and>
   (load_conversations loads fs st = (Inr store, st') \<longrightarrow>
      fst (load_conversations loads fs st') = Inr store) \<and>
   (load_conversations loads fs st = (Inr store, st') \<and>
    get_conversation_list loads fs st = (r, st') \<longrightarrow>
      fst (get_conversation_list loads fs st') = r) \<and>
   (load_conversations loads fs st = (Inr [], st') \<longrightarrow>
      reads (snd (load_conversations loads fs st'))
        = reads st' @ filter (\<lambda>i. fs i \<noteq> Missing) [1, 2, 3, 4])"
proof (intro conjI impI)
  assume "load_conversations loads fs st = (Inr store, st') \<and> store \<noteq> []"
  then have l: "load_conversations loads fs st = (Inr store, st')" and n: "store \<noteq> []"
    by simp_all
  from load_conversations_cache [OF l] n show "load_conversations loads fs st' = (Inr store, st')"
    by (simp add: load_conversations_hit)
next
  assume "load_conversations loads fs st = (Inr store, st')"
  then show "fst (load_conversations loads fs st') = Inr store"
    by (rule load_conversations_again)
next
  assume "load_conversations loads fs st = (Inr store, st') \<and>
    get_conversation_list loads fs st = (r, st')"
  then have l: "load_conversations loads fs st = (Inr store, st')"
    and g: "get_conversation_list loads fs st = (r, st')"
    by simp_all
  from l g have r: "r = conversation_list store"
    by (simp add: get_conversation_list_def)
  obtain st'' where "load_conversations loads fs st' = (Inr store, st'')"
    using load_conversations_again [OF l]
    by (cases "load_conversations loads fs st'") simp
  then show "fst (get_conversation_list loads fs st') = r"
    using r by (simp add: get_conversation_list_def)
next
  assume l: "load_conversations loads fs st = (Inr [], st')"
  from load_conversations_cache [OF l] show
    "reads (snd (load_conversations loads fs st'))
        = reads st' @ filter (\<lambda>i. fs i \<noteq> Missing) [1, 2, 3, 4]"
    by (simp add: load_conversations_miss)
qed

lemma duplicate_loaded_state: 
  "load_conversations json_loads duplicate_files initial_state = (Inr [(JStr ''a'', new_a)], loaded_state)"
  unfolding loaded_state_def by (rule duplicate_loaded)

lemma duplicate_listed:
  "get_conversation_list json_loads duplicate_files initial_state = (Inr [listed_a], loaded_state)"
  by code_simp

lemma loaded_nonempty: "[(JStr ''a'', new_a)] \<noteq> []"
  by simp

theorem load_once_when_nonempty_witness:
  "load_conversations json_loads duplicate_files initial_state
     = (Inr [(JStr ''a'', new_a)], loaded_state) \<and>
   [(JStr ''a'', new_a)] \<noteq> [] \<and>
   load_conversations json_loads duplicate_files loaded_state
     = (Inr [(JStr ''a'', new_a)], loaded_state) \<and>
   fst (load_conversations json_loads duplicate_files loaded_state) = Inr [(JStr ''a'', new_a)] \<and>
   get_conversation_list json_loads duplicate_files initial_state = (Inr [listed_a], loaded_state) \<and>
   fst (get_conversation_list json_loads duplicate_files loaded_state) = Inr [listed_a] \<and>
   load_conversations json_loads empty_array_files initial_state
     = (Inr [], \<lparr>cache = [], reads = [1]\<rparr>) \<and>
   reads (snd (load_conversations json_loads empty_array_files \<lparr>cache = [], reads = [1]\<rparr>))
     = reads \<lparr>cache = [], reads = [1]\<rparr> @ filter (\<lambda>i. empty_array_files i \<noteq> Missing) [1, 2, 3, 4]"
proof -
  note t = load_once_when_nonempty [of json_loads duplicate_files initial_state
      "[(JStr ''a'', new_a)]" loaded_state "Inr [listed_a]"]
  note a = t [THEN conjunct1, THEN mp, OF conjI [OF duplicate_loaded_state loaded_nonempty]]
  note b = t [THEN conjunct2, THEN conjunct1, THEN mp, OF duplicate_loaded_state]
  note c = t [THEN conjunct2, THEN conjunct2, THEN conjunct1, THEN mp,
      OF conjI [OF duplicate_loaded_state duplicate_listed]]
  note d = load_once_when_nonempty [of json_loads empty_array_files initial_state "[]"
      "\<lparr>cache = [], reads = [1]\<rparr>", THEN conjunct2, THEN conjunct2, THEN conjunct2, THEN mp,
      OF empty_first]
  show ?thesis
    by (intro conjI)
       (rule duplicate_loaded_state loaded_nonempty a b duplicate_listed c empty_first d)+
qed

text \<open>
  With one source file that holds an empty list, the first load opens the file and
  returns an empty store, and the second load opens the file again.
\<close>

theorem empty_store_is_loaded_again:
  "fst (load_conversations json_loads empty_array_files initial_state) = Inr [] \<and>
   reads after_first_load = [1] \<and>
   fst (load_conversations json_loads empty_array_files after_first_load) = Inr [] \<and>
   reads (snd (load_conversations json_loads empty_array_files after_first_load)) = [1, 1] \<and>
   reads (snd (load_conversations json_loads empty_array_files after_first_load))
     \<noteq> reads after_first_load"
  unfolding after_first empty_first empty_second by simp


section \<open>The order of the results\<close>

lemma sorted_wrt_short: "length xs \<le> 1 \<Longrightarrow> sorted_wrt P xs"
  by (cases xs) auto

lemma py_sort_desc_set: "py_sort_desc key xs = Inr ys \<Longrightarrow> set ys = set xs"
  by (metis py_sort_desc_mset set_mset_mset)

lemma py_sort_desc_take_sorted:
  assumes s: "py_sort_desc key xs = Inr ys"
    and k: "\<forall>x\<in>set (take n ys). is_str (key x)"
  shows "sorted_wrt (\<lambda>a b. str_of (key b) \<le> str_of (key a)) (take n ys)"
proof (cases "take n ys = [] \<or> length xs \<le> 1")
  case True
  moreover have "length ys = length xs"
    using py_sort_desc_mset [OF s] by (metis size_mset)
  ultimately show ?thesis
    by (auto intro: sorted_wrt_short)
next
  case False
  then obtain x where x: "x \<in> set (take n ys)" and long: "\<not> length xs \<le> 1"
    by (cases "take n ys") auto
  with k have "is_str (key x)" by simp
  moreover from x have "x \<in> set xs"
    using py_sort_desc_set [OF s] by (auto dest: in_set_takeD)
  ultimately have "x \<in> set xs \<and> \<not> is_num (key x)"
    by (cases "key x") simp_all
  then have "\<not> list_all (\<lambda>x. is_num (key x)) xs"
    unfolding list_all_iff by blast
  with s long have "list_all (\<lambda>x. is_str (key x)) xs"
    by (auto simp: py_sort_desc_def split: if_splits)
  then have "\<forall>x\<in>set xs. is_str (key x)"
    by (simp add: list_all_iff)
  from py_sort_desc_sorted [OF s this] show ?thesis
    by (rule sorted_wrt_take)
qed

lemma py_sort_desc_sorted_results:
  assumes "py_sort_desc key xs = Inr ys" and "\<forall>x\<in>set ys. is_str (key x)"
  shows "sorted_wrt (\<lambda>a b. str_of (key b) \<le> str_of (key a)) ys"
  using py_sort_desc_take_sorted [OF assms(1), of "length ys"] assms(2) by simp

lemma sorted_desc_empty_last:
  assumes "sorted_wrt (\<lambda>a b. str_of (key b) \<le> str_of (key a)) (pre @ e # post)"
    and "key e = JStr []" and "\<forall>x\<in>set post. is_str (key x)"
  shows "\<forall>x\<in>set post. key x = JStr []"
proof
  fix x assume x: "x \<in> set post"
  with assms(1) have "str_of (key x) \<le> str_of (key e)"
    by (auto simp: sorted_wrt_append)
  with assms(2) have "str_of (key x) = []" by simp
  moreover from assms(3) x have "is_str (key x)" by simp
  ultimately show "key x = JStr []" by (cases "key x") simp_all
qed

lemma conversation_list_sorted:
  assumes "conversation_list convs = Inr rs" and "\<forall>x\<in>set rs. is_str (le_created_at x)"
  shows "sorted_wrt (\<lambda>a b. str_of (le_created_at b) \<le> str_of (le_created_at a)) rs"
proof -
  from assms(1) obtain result where "py_sort_desc le_created_at result = Inr rs"
    by (auto simp: conversation_list_def split: sum.splits)
  then show ?thesis using assms(2) by (rule py_sort_desc_sorted_results)
qed

lemma search_results_cases:
  assumes "search_results lower convs query = Inr rs"
  obtains hits ordered where "traverse (search_conv lower (lower query)) convs = Inr hits"
    and "py_sort_desc sh_created_at (List.map_filter id hits) = Inr ordered"
    and "rs = take 100 ordered"
  using assms by (auto simp: search_results_def split: sum.splits)

lemma search_results_sorted:
  assumes "search_results lower convs query = Inr rs" and "\<forall>x\<in>set rs. is_str (sh_created_at x)"
  shows "sorted_wrt (\<lambda>a b. str_of (sh_created_at b) \<le> str_of (sh_created_at a)) rs"
proof -
  from assms(1) obtain hits ordered
    where s: "py_sort_desc sh_created_at (List.map_filter id hits) = Inr ordered"
      and rs: "rs = take 100 ordered"
    by (rule search_results_cases)
  from py_sort_desc_take_sorted [OF s, of 100] assms(2) rs show ?thesis by simp
qed

lemma list_entry_created_at:
  "list_entry_of (uuid, conv) = Inr e \<Longrightarrow> le_created_at e = dget conv ''created_at'' (JStr [])"
  by (auto simp: list_entry_of_def split: sum.splits)

lemma traverse_Inr_iff:
  "(\<exists>ys. traverse f xs = Inr ys) \<longleftrightarrow> (\<forall>x\<in>set xs. \<exists>y. f x = Inr y)"
  by (induction xs) (auto split: sum.splits)

lemma traverse_map:
  "traverse f xs = Inr ys \<Longrightarrow> map Inr ys = map f xs"
  by (induction xs arbitrary: ys) (auto split: sum.splits)

lemma conversation_list_total:
  assumes "\<forall>item\<in>set convs. is_str (dget (snd item) ''created_at'' (JStr [])) \<and>
             (\<exists>n. py_len (dget (snd item) ''chat_messages'' (JArr [])) = Inr n)"
  shows "\<exists>rs. conversation_list convs = Inr rs"
proof -
  have "\<forall>item\<in>set convs. \<exists>e. list_entry_of item = Inr e"
    using assms by (auto simp: list_entry_of_def split: prod.splits)
  then obtain result where r: "traverse list_entry_of convs = Inr result"
    using traverse_Inr_iff [of list_entry_of convs] by blast
  have "\<forall>e\<in>set result. is_str (le_created_at e)"
  proof
    fix e assume "e \<in> set result"
    then have "Inr e \<in> set (map list_entry_of convs)"
      using traverse_map [OF r] by (metis image_eqI list.set_map)
    then obtain uuid conv where m: "(uuid, conv) \<in> set convs" and e: "list_entry_of (uuid, conv) = Inr e"
      by auto
    from list_entry_created_at [OF e] assms m show "is_str (le_created_at e)" by auto
  qed
  then have "py_sort_desc le_created_at result = Inr (sort_desc (\<lambda>x. str_of (le_created_at x)) result)"
    by (rule py_sort_desc_strings)
  with r show ?thesis by (simp add: conversation_list_def)
qed


lemma get_conversation_list_cases:
  assumes "fst (get_conversation_list loads fs st) = Inr rs"
  obtains convs where "conversation_list convs = Inr rs"
  using assms
  by (auto simp: get_conversation_list_def split: prod.splits sum.splits)

lemma serve_search_cases:
  assumes "fst (serve_search loads fs lower query st) = Inr hs"
  obtains "hs = []" | convs where "search_results lower convs query = Inr hs"
  using assms
  by (auto simp: serve_search_def split: prod.splits sum.splits if_splits)

text \<open>
  C6. A list that the list API returns, and a list that the search API returns, with
  strings as \<^verbatim>\<open>created_at\<close>, is in descending order of these strings, compared as
  lists of characters: \<^verbatim>\<open>created_at\<close> does not increase from one element to the next.
  A conversation without \<^verbatim>\<open>created_at\<close> is listed with the empty string, and in a
  list that is returned only such entries follow it. The list API returns a list
  whenever every stored \<^verbatim>\<open>created_at\<close> is a string and every \<^verbatim>\<open>chat_messages\<close>
  has a length.
\<close>

theorem results_sorted_descending:
  "(conversation_list convs = Inr rs \<and> (\<forall>x\<in>set rs. is_str (le_created_at x)) \<longrightarrow>
      sorted_wrt (\<lambda>a b. str_of (le_created_at b) \<le> str_of (le_created_at a)) rs) \<and>
   (fst (get_conversation_list loads fs st) = Inr rs \<and> (\<forall>x\<in>set rs. is_str (le_created_at x)) \<longrightarrow>
      sorted_wrt (\<lambda>a b. str_of (le_created_at b) \<le> str_of (le_created_at a)) rs) \<and>
   (search_results lower convs query = Inr hs \<and> (\<forall>x\<in>set hs. is_str (sh_created_at x)) \<longrightarrow>
      sorted_wrt (\<lambda>a b. str_of (sh_created_at b) \<le> str_of (sh_created_at a)) hs) \<and>
   (fst (serve_search loads fs lower query st) = Inr hs \<and> (\<forall>x\<in>set hs. is_str (sh_created_at x)) \<longrightarrow>
      sorted_wrt (\<lambda>a b. str_of (sh_created_at b) \<le> str_of (sh_created_at a)) hs) \<and>
   (list_entry_of (uuid, conv) = Inr e \<and> map_of conv ''created_at'' = None \<longrightarrow>
      le_created_at e = JStr []) \<and>
   (conversation_list convs = Inr (pre @ e # post) \<and>
    (\<forall>x\<in>set (pre @ e # post). is_str (le_created_at x)) \<and> le_created_at e = JStr [] \<longrightarrow>
      (\<forall>x\<in>set post. le_created_at x = JStr [])) \<and>
   ((\<forall>item\<in>set convs. is_str (dget (snd item) ''created_at'' (JStr [])) \<and>
        (\<exists>n. py_len (dget (snd item) ''chat_messages'' (JArr [])) = Inr n)) \<longrightarrow>
      (\<exists>rs. conversation_list convs = Inr rs))"
proof (intro conjI impI)
  assume "conversation_list convs = Inr rs \<and> (\<forall>x\<in>set rs. is_str (le_created_at x))"
  then show "sorted_wrt (\<lambda>a b. str_of (le_created_at b) \<le> str_of (le_created_at a)) rs"
    using conversation_list_sorted by blast
next
  assume h: "fst (get_conversation_list loads fs st) = Inr rs \<and>
    (\<forall>x\<in>set rs. is_str (le_created_at x))"
  then obtain convs' where "conversation_list convs' = Inr rs"
    using get_conversation_list_cases by blast
  with h show "sorted_wrt (\<lambda>a b. str_of (le_created_at b) \<le> str_of (le_created_at a)) rs"
    using conversation_list_sorted by blast
next
  assume "search_results lower convs query = Inr hs \<and> (\<forall>x\<in>set hs. is_str (sh_created_at x))"
  then show "sorted_wrt (\<lambda>a b. str_of (sh_created_at b) \<le> str_of (sh_created_at a)) hs"
    using search_results_sorted by blast
next
  assume h: "fst (serve_search loads fs lower query st) = Inr hs \<and>
    (\<forall>x\<in>set hs. is_str (sh_created_at x))"
  then have "fst (serve_search loads fs lower query st) = Inr hs" by simp
  then show "sorted_wrt (\<lambda>a b. str_of (sh_created_at b) \<le> str_of (sh_created_at a)) hs"
  proof (cases rule: serve_search_cases)
    case 1
    then show ?thesis by simp
  next
    case (2 convs')
    with h show ?thesis using search_results_sorted by blast
  qed
next
  assume "list_entry_of (uuid, conv) = Inr e \<and> map_of conv ''created_at'' = None"
  then show "le_created_at e = JStr []"
    using list_entry_created_at [of uuid conv e] by (simp add: dget_def)
next
  assume h: "conversation_list convs = Inr (pre @ e # post) \<and>
    (\<forall>x\<in>set (pre @ e # post). is_str (le_created_at x)) \<and> le_created_at e = JStr []"
  then have "sorted_wrt (\<lambda>a b. str_of (le_created_at b) \<le> str_of (le_created_at a)) (pre @ e # post)"
    using conversation_list_sorted by blast
  moreover from h have "le_created_at e = JStr []" and "\<forall>x\<in>set post. is_str (le_created_at x)"
    by simp_all
  ultimately show "\<forall>x\<in>set post. le_created_at x = JStr []"
    by (rule sorted_desc_empty_last)
next
  assume "\<forall>item\<in>set convs. is_str (dget (snd item) ''created_at'' (JStr [])) \<and>
        (\<exists>n. py_len (dget (snd item) ''chat_messages'' (JArr [])) = Inr n)"
  then show "\<exists>rs. conversation_list convs = Inr rs"
    by (rule conversation_list_total)
qed

lemma fruit_listed: "conversation_list fruit_store = Inr fruit_list"
  by code_simp

lemma fruit_found: "search_results ascii_lower fruit_store ''PL'' = Inr fruit_hits"
  by code_simp

lemma duplicate_listed_fst:
  "fst (get_conversation_list json_loads duplicate_files initial_state) = Inr [listed_a]"
  by (simp add: duplicate_listed)

lemma duplicate_found:
  "fst (serve_search json_loads duplicate_files ascii_lower ''NEW'' initial_state)
     = Inr [title_hit ''a'' ''new'' []]"
  by code_simp

lemma fruit_list_strings: "\<forall>x\<in>set fruit_list. is_str (le_created_at x)"
  by (simp add: fruit_list_def entry_def)

lemma fruit_hits_strings: "\<forall>x\<in>set fruit_hits. is_str (sh_created_at x)"
  by (simp add: fruit_hits_def title_hit_def)

lemma plot_entry:
  "list_entry_of (JStr ''q'', conv_plot) = Inr (entry ''q'' ''Plot'' []) \<and> map_of conv_plot ''created_at'' = None"
  by code_simp

lemma fruit_store_wf:
  "\<forall>item\<in>set fruit_store. is_str (dget (snd item) ''created_at'' (JStr [])) \<and>
        (\<exists>n. py_len (dget (snd item) ''chat_messages'' (JArr [])) = Inr n)"
  by (simp add: fruit_store_def conv_plan_def conv_plot_def conv_plum_def conv_plus_def dget_def)

theorem results_sorted_descending_witness:
  "conversation_list fruit_store = Inr fruit_list \<and>
   sorted_wrt (\<lambda>a b. str_of (le_created_at b) \<le> str_of (le_created_at a)) fruit_list \<and>
   fst (get_conversation_list json_loads duplicate_files initial_state) = Inr [listed_a] \<and>
   sorted_wrt (\<lambda>a b. str_of (le_created_at b) \<le> str_of (le_created_at a)) [listed_a] \<and>
   search_results ascii_lower fruit_store ''PL'' = Inr fruit_hits \<and>
   sorted_wrt (\<lambda>a b. str_of (sh_created_at b) \<le> str_of (sh_created_at a)) fruit_hits \<and>
   fst (serve_search json_loads duplicate_files ascii_lower ''NEW'' initial_state)
     = Inr [title_hit ''a'' ''new'' []] \<and>
   sorted_wrt (\<lambda>a b. str_of (sh_created_at b) \<le> str_of (sh_created_at a))
     [title_hit ''a'' ''new'' []] \<and>
   list_entry_of (JStr ''q'', conv_plot) = Inr (entry ''q'' ''Plot'' []) \<and>
   map_of conv_plot ''created_at'' = None \<and>
   le_created_at (entry ''q'' ''Plot'' []) = JStr [] \<and>
   le_created_at (entry ''s'' ''Plus'' []) = JStr [] \<and>
   (\<exists>rs. conversation_list fruit_store = Inr rs)"
proof -
  have one: "\<forall>x\<in>set [listed_a]. is_str (le_created_at x)"
    by (simp add: listed_a_def)
  have hit: "\<forall>x\<in>set [title_hit ''a'' ''new'' []]. is_str (sh_created_at x)"
    by (simp add: title_hit_def)
  have dec: "conversation_list fruit_store
      = Inr ([entry ''r'' ''Plum'' ''2024-03'', entry ''p'' ''Plan'' ''2024-01'']
             @ entry ''q'' ''Plot'' [] # [entry ''s'' ''Plus'' []])"
    using fruit_listed by (simp add: fruit_list_def)
  have decs: "\<forall>x\<in>set ([entry ''r'' ''Plum'' ''2024-03'', entry ''p'' ''Plan'' ''2024-01'']
             @ entry ''q'' ''Plot'' [] # [entry ''s'' ''Plus'' []]). is_str (le_created_at x)"
    by (simp add: entry_def)
  have q: "le_created_at (entry ''q'' ''Plot'' []) = JStr []"
    by (simp add: entry_def)
  note a = results_sorted_descending [of fruit_store fruit_list, THEN conjunct1, THEN mp,
      OF conjI [OF fruit_listed fruit_list_strings]]
  note b = results_sorted_descending [of _ "[listed_a]" json_loads duplicate_files initial_state,
      THEN conjunct2, THEN conjunct1, THEN mp, OF conjI [OF duplicate_listed_fst one]]
  note c = results_sorted_descending [of fruit_store _ _ _ _ ascii_lower "''PL''" fruit_hits,
      THEN conjunct2, THEN conjunct2, THEN conjunct1, THEN mp,
      OF conjI [OF fruit_found fruit_hits_strings]]
  note d = results_sorted_descending [of _ _ json_loads duplicate_files initial_state ascii_lower
      "''NEW''" "[title_hit ''a'' ''new'' []]",
      THEN conjunct2, THEN conjunct2, THEN conjunct2, THEN conjunct1, THEN mp,
      OF conjI [OF duplicate_found hit]]
  note e = results_sorted_descending [THEN conjunct2, THEN conjunct2, THEN conjunct2,
      THEN conjunct2, THEN conjunct1, THEN mp, OF plot_entry]
  note f = results_sorted_descending [THEN conjunct2, THEN conjunct2, THEN conjunct2,
      THEN conjunct2, THEN conjunct2, THEN conjunct1, THEN mp,
      OF conjI [OF dec conjI [OF decs q]], THEN bspec, of "entry ''s'' ''Plus'' []", simplified]
  note g = results_sorted_descending [THEN conjunct2, THEN conjunct2, THEN conjunct2,
      THEN conjunct2, THEN conjunct2, THEN conjunct2, THEN mp, OF fruit_store_wf]
  show ?thesis
    by (intro conjI)
       (rule fruit_listed a duplicate_listed_fst b fruit_found c duplicate_found d
         plot_entry [THEN conjunct1] plot_entry [THEN conjunct2] e f g)+
qed

section \<open>The cap on the search results\<close>

lemma search_results_spec:
  assumes "search_results lower convs query = Inr rs"
  shows "length rs \<le> 100 \<and>
     (\<exists>hits ordered. traverse (search_conv lower (lower query)) convs = Inr hits \<and>
        py_sort_desc sh_created_at (List.map_filter id hits) = Inr ordered \<and>
        mset ordered = mset (List.map_filter id hits) \<and> rs = take 100 ordered \<and>
        ((\<forall>x\<in>set ordered. is_str (sh_created_at x)) \<longrightarrow>
           sorted_wrt (\<lambda>a b. str_of (sh_created_at b) \<le> str_of (sh_created_at a)) ordered \<and>
           (\<forall>x\<in>set rs. \<forall>y\<in>set (drop 100 ordered).
              str_of (sh_created_at y) \<le> str_of (sh_created_at x))))"
proof -
  from assms obtain hits ordered
    where t: "traverse (search_conv lower (lower query)) convs = Inr hits"
      and s: "py_sort_desc sh_created_at (List.map_filter id hits) = Inr ordered"
      and rs: "rs = take 100 ordered"
    by (rule search_results_cases)
  have m: "mset ordered = mset (List.map_filter id hits)"
    using s by (rule py_sort_desc_mset)
  have o: "sorted_wrt (\<lambda>a b. str_of (sh_created_at b) \<le> str_of (sh_created_at a)) ordered \<and>
           (\<forall>x\<in>set rs. \<forall>y\<in>set (drop 100 ordered).
              str_of (sh_created_at y) \<le> str_of (sh_created_at x))"
    if k: "\<forall>x\<in>set ordered. is_str (sh_created_at x)"
  proof -
    have so: "sorted_wrt (\<lambda>a b. str_of (sh_created_at b) \<le> str_of (sh_created_at a)) ordered"
      using s k by (rule py_sort_desc_sorted_results)
    then have "sorted_wrt (\<lambda>a b. str_of (sh_created_at b) \<le> str_of (sh_created_at a))
        (take 100 ordered @ drop 100 ordered)"
      by simp
    then have "\<forall>x\<in>set (take 100 ordered). \<forall>y\<in>set (drop 100 ordered).
        str_of (sh_created_at y) \<le> str_of (sh_created_at x)"
      unfolding sorted_wrt_append by blast
    with so rs show ?thesis by simp
  qed
  from rs have "length rs \<le> 100" by simp
  with t s m rs o show ?thesis by blast
qed

text \<open>
  C9. A list that the search returns has at most 100 elements: it is the first 100
  elements of the sorted list of all hits, which has every hit once. With strings as
  \<^verbatim>\<open>created_at\<close> the sorted list is in descending order, so no hit that is cut off is
  newer than a hit that is returned. The same bound holds for \<^verbatim>\<open>serve_search\<close> as a
  whole, whose answer to an empty query is the empty list.
\<close>

theorem search_at_most_100:
  "(search_results lower convs query = Inr rs \<longrightarrow>
     length rs \<le> 100 \<and>
     (\<exists>hits ordered. traverse (search_conv lower (lower query)) convs = Inr hits \<and>
        py_sort_desc sh_created_at (List.map_filter id hits) = Inr ordered \<and>
        mset ordered = mset (List.map_filter id hits) \<and> rs = take 100 ordered \<and>
        ((\<forall>x\<in>set ordered. is_str (sh_created_at x)) \<longrightarrow>
           sorted_wrt (\<lambda>a b. str_of (sh_created_at b) \<le> str_of (sh_created_at a)) ordered \<and>
           (\<forall>x\<in>set rs. \<forall>y\<in>set (drop 100 ordered).
              str_of (sh_created_at y) \<le> str_of (sh_created_at x))))) \<and>
   (fst (serve_search loads fs lower query st) = Inr rs \<longrightarrow> length rs \<le> 100)"
proof (intro conjI impI)
  assume a: "search_results lower convs query = Inr rs"
  from search_results_spec [OF a] show "length rs \<le> 100" by (rule conjunct1)
  from search_results_spec [OF a]
  show "\<exists>hits ordered. traverse (search_conv lower (lower query)) convs = Inr hits \<and>
        py_sort_desc sh_created_at (List.map_filter id hits) = Inr ordered \<and>
        mset ordered = mset (List.map_filter id hits) \<and> rs = take 100 ordered \<and>
        ((\<forall>x\<in>set ordered. is_str (sh_created_at x)) \<longrightarrow>
           sorted_wrt (\<lambda>a b. str_of (sh_created_at b) \<le> str_of (sh_created_at a)) ordered \<and>
           (\<forall>x\<in>set rs. \<forall>y\<in>set (drop 100 ordered).
              str_of (sh_created_at y) \<le> str_of (sh_created_at x)))"
    by (rule conjunct2)
next
  assume "fst (serve_search loads fs lower query st) = Inr rs"
  then show "length rs \<le> 100"
  proof (cases rule: serve_search_cases)
    case 1
    then show ?thesis by simp
  next
    case (2 convs')
    from search_results_spec [OF this] show ?thesis by (rule conjunct1)
  qed
qed

lemma many_found:
  "search_results ascii_lower many_store ''note'' = Inr (map many_hit (rev [1..<101]))"
  by code_simp

lemma many_length: "length many_store = 101"
  by (simp add: many_store_def)


theorem search_at_most_100_witness:
  "length many_store = 101 \<and>
   search_results ascii_lower many_store ''note'' = Inr (map many_hit (rev [1..<101])) \<and>
   length (map many_hit (rev [1..<101])) \<le> 100 \<and>
   fst (serve_search json_loads duplicate_files ascii_lower ''NEW'' initial_state)
     = Inr [title_hit ''a'' ''new'' []] \<and>
   length [title_hit ''a'' ''new'' []] \<le> 100"
proof -
  note a = search_at_most_100 [of ascii_lower many_store "''note''" "map many_hit (rev [1..<101])",
      THEN conjunct1, THEN mp, OF many_found, THEN conjunct1]
  note b = search_at_most_100 [of ascii_lower _ "''NEW''" "[title_hit ''a'' ''new'' []]"
      json_loads duplicate_files initial_state, THEN conjunct2, THEN mp, OF duplicate_found]
  show ?thesis
    by (intro conjI) (rule many_length many_found a duplicate_found b)+
qed

section \<open>The fields of a listed conversation\<close>

lemma list_entry_of_fields:
  assumes "list_entry_of (uuid, conv) = Inr e"
  shows "le_name e = dget conv ''name'' (JStr ''Untitled'')"
    and "le_summary e = dget conv ''summary'' (JStr [])"
    and "py_len (dget conv ''chat_messages'' (JArr [])) = Inr (le_message_count e)"
  using assms by (auto simp: list_entry_of_def split: sum.splits)

lemma conversation_list_entries:
  assumes "conversation_list convs = Inr rs"
  shows "mset (map Inr rs) = mset (map list_entry_of convs)"
proof -
  from assms obtain result where t: "traverse list_entry_of convs = Inr result"
    and s: "py_sort_desc le_created_at result = Inr rs"
    by (auto simp: conversation_list_def split: sum.splits)
  from py_sort_desc_mset [OF s] have "mset (map Inr rs) = mset (map Inr result)"
    by (metis mset_map)
  also have "\<dots> = mset (map list_entry_of convs)"
    by (simp only: traverse_map [OF t])
  finally show ?thesis .
qed

lemma serve_conversation_found:
  assumes "serve_conversation repr convs uuid = Inr (Found v)"
  obtains conv msgs where "dict_lookup convs (JStr uuid) = Some conv"
    and "py_iter (dget conv ''chat_messages'' (JArr [])) = Inr msgs"
    and "traverse (message_view_of repr) msgs = Inr (cv_messages v)"
    and "cv_name v = dget conv ''name'' (JStr ''Untitled'')"
    and "cv_summary v = dget conv ''summary'' (JStr [])"
  using assms
  by (auto simp: serve_conversation_def split: option.splits if_splits sum.splits)

text \<open>
  C8. The list entry of a stored conversation has the name \<^verbatim>\<open>Untitled\<close> when the
  conversation has no \<^verbatim>\<open>name\<close> field, and the value of the field when it has one,
  whatever it is; the summary is the empty string when there is no \<^verbatim>\<open>summary\<close>
  field; \<^verbatim>\<open>message_count\<close> is the length of the list \<^verbatim>\<open>chat_messages\<close>, and 0
  without that field. The list that the list API returns consists of these entries. The
  full record of a conversation that is found has the same name and summary, and as many
  messages as \<^verbatim>\<open>chat_messages\<close>.
\<close>

theorem name_defaults_when_absent:
  "(list_entry_of (uuid, conv) = Inr e \<longrightarrow>
      le_name e = (case map_of conv ''name'' of None \<Rightarrow> JStr ''Untitled'' | Some n \<Rightarrow> n) \<and>
      le_summary e = (case map_of conv ''summary'' of None \<Rightarrow> JStr [] | Some s \<Rightarrow> s)) \<and>
   (map_of conv ''chat_messages'' = Some (JArr msgs) \<longrightarrow>
      (\<exists>e'. list_entry_of (uuid, conv) = Inr e' \<and> le_message_count e' = length msgs)) \<and>
   (map_of conv ''chat_messages'' = None \<longrightarrow>
      (\<exists>e'. list_entry_of (uuid, conv) = Inr e' \<and> le_message_count e' = 0)) \<and>
   (conversation_list convs = Inr rs \<longrightarrow>
      mset (map Inr rs) = mset (map list_entry_of convs)) \<and>
   (serve_conversation repr convs ident = Inr (Found v) \<longrightarrow>
      (\<exists>c. dict_lookup convs (JStr ident) = Some c \<and>
         cv_name v = (case map_of c ''name'' of None \<Rightarrow> JStr ''Untitled'' | Some n \<Rightarrow> n) \<and>
         cv_summary v = (case map_of c ''summary'' of None \<Rightarrow> JStr [] | Some s \<Rightarrow> s) \<and>
         (\<forall>ms. map_of c ''chat_messages'' = Some (JArr ms) \<longrightarrow>
            length (cv_messages v) = length ms)))"
proof (intro conjI impI)
  assume a: "list_entry_of (uuid, conv) = Inr e"
  from list_entry_of_fields(1) [OF a]
  show "le_name e = (case map_of conv ''name'' of None \<Rightarrow> JStr ''Untitled'' | Some n \<Rightarrow> n)"
    by (simp add: dget_def)
  from list_entry_of_fields(2) [OF a]
  show "le_summary e = (case map_of conv ''summary'' of None \<Rightarrow> JStr [] | Some s \<Rightarrow> s)"
    by (simp add: dget_def)
next
  assume "map_of conv ''chat_messages'' = Some (JArr msgs)"
  then show "\<exists>e'. list_entry_of (uuid, conv) = Inr e' \<and> le_message_count e' = length msgs"
    by (simp add: list_entry_of_def dget_def)
next
  assume "map_of conv ''chat_messages'' = None"
  then show "\<exists>e'. list_entry_of (uuid, conv) = Inr e' \<and> le_message_count e' = 0"
    by (simp add: list_entry_of_def dget_def)
next
  assume "conversation_list convs = Inr rs"
  then show "mset (map Inr rs) = mset (map list_entry_of convs)"
    by (rule conversation_list_entries)
next
  assume "serve_conversation repr convs ident = Inr (Found v)"
  then obtain c ms where l: "dict_lookup convs (JStr ident) = Some c"
    and i: "py_iter (dget c ''chat_messages'' (JArr [])) = Inr ms"
    and t: "traverse (message_view_of repr) ms = Inr (cv_messages v)"
    and n: "cv_name v = dget c ''name'' (JStr ''Untitled'')"
    and s: "cv_summary v = dget c ''summary'' (JStr [])"
    by (rule serve_conversation_found)
  have "\<forall>ms'. map_of c ''chat_messages'' = Some (JArr ms') \<longrightarrow> length (cv_messages v) = length ms'"
    using i traverse_length [OF t] by (auto simp: dget_def)
  with l n s show "\<exists>c. dict_lookup convs (JStr ident) = Some c \<and>
         cv_name v = (case map_of c ''name'' of None \<Rightarrow> JStr ''Untitled'' | Some n \<Rightarrow> n) \<and>
         cv_summary v = (case map_of c ''summary'' of None \<Rightarrow> JStr [] | Some s \<Rightarrow> s) \<and>
         (\<forall>ms. map_of c ''chat_messages'' = Some (JArr ms) \<longrightarrow>
            length (cv_messages v) = length ms)"
    by (auto simp: dget_def)
qed

lemma nameless_listed: "list_entry_of (JStr ''n'', nameless) = Inr nameless_entry"
  by code_simp

lemma nameless_messages:
  "map_of nameless ''chat_messages''
     = Some (JArr [JObj [(''text'', JStr ''hi'')], JObj [(''text'', JStr ''ho'')]])"
  by code_simp

lemma nameless_list: "conversation_list [(JStr ''n'', nameless)] = Inr [nameless_entry]"
  by code_simp

lemma nameless_served:
  "serve_conversation (\<lambda>v. []) [(JStr ''n'', nameless)] ''n'' = Inr (Found nameless_view)"
  by code_simp

theorem name_defaults_when_absent_witness:
  "list_entry_of (JStr ''n'', nameless) = Inr nameless_entry \<and>
   map_of nameless ''name'' = None \<and>
   le_name nameless_entry = JStr ''Untitled'' \<and>
   le_summary nameless_entry = JStr [] \<and>
   le_message_count nameless_entry = 2 \<and>
   conversation_list [(JStr ''n'', nameless)] = Inr [nameless_entry] \<and>
   mset (map Inr [nameless_entry]) = mset (map list_entry_of [(JStr ''n'', nameless)]) \<and>
   map_of conv_plot ''chat_messages'' = None \<and>
   (\<exists>e'. list_entry_of (JStr ''q'', conv_plot) = Inr e' \<and> le_message_count e' = 0) \<and>
   serve_conversation (\<lambda>v. []) [(JStr ''n'', nameless)] ''n'' = Inr (Found nameless_view) \<and>
   cv_name nameless_view = JStr ''Untitled'' \<and>
   length (cv_messages nameless_view) = 2"
proof -
  have none: "map_of nameless ''name'' = None" "map_of nameless ''summary'' = None"
    by (simp_all add: nameless_def)
  have nomsg: "map_of conv_plot ''chat_messages'' = None"
    by (simp add: conv_plot_def)
  note a = name_defaults_when_absent [of "JStr ''n''" nameless nameless_entry, THEN conjunct1,
      THEN mp, OF nameless_listed, unfolded none option.case]
  note b = name_defaults_when_absent [of "JStr ''n''" nameless _ _, THEN conjunct2, THEN conjunct1,
      THEN mp, OF nameless_messages]
  note c = name_defaults_when_absent [of "JStr ''q''" conv_plot, THEN conjunct2, THEN conjunct2,
      THEN conjunct1, THEN mp, OF nomsg]
  note d = name_defaults_when_absent [THEN conjunct2, THEN conjunct2, THEN conjunct2,
      THEN conjunct1, THEN mp, OF nameless_list]
  note e = name_defaults_when_absent [THEN conjunct2, THEN conjunct2, THEN conjunct2,
      THEN conjunct2, THEN mp, OF nameless_served]
  from b have cnt: "le_message_count nameless_entry = 2"
    by (simp add: nameless_listed)
  from e have v: "cv_name nameless_view = JStr ''Untitled''"
    and len: "length (cv_messages nameless_view) = 2"
    by (simp_all add: none nameless_messages)
  show ?thesis
    by (intro conjI)
       (rule nameless_listed none a [THEN conjunct1] a [THEN conjunct2] cnt nameless_list d
         nomsg c nameless_served v len)+
qed

text \<open>
  A conversation whose name is the empty string is listed, and served, with the empty
  string as its name.
\<close>

theorem empty_name_is_reported_empty:
  "conversation_list empty_name_store
     = Inr [\<lparr>le_uuid = JStr ''e'', le_name = JStr [], le_summary = JStr [],
              le_created_at = JStr [], le_updated_at = JStr [], le_message_count = 0\<rparr>] \<and>
   serve_conversation (\<lambda>v. []) empty_name_store ''e''
     = Inr (Found \<lparr>cv_uuid = JStr ''e'', cv_name = JStr [], cv_summary = JStr [],
              cv_created_at = JStr [], cv_updated_at = JStr [], cv_messages = []\<rparr>) \<and>
   JStr [] \<noteq> JStr ''Untitled''"
  by code_simp

section \<open>What the search looks at\<close>

lemma scan_messages_first:
  assumes "\<forall>x\<in>set pre. \<exists>d t. x = JObj d \<and> dget d ''text'' (JStr []) = JStr t \<and> \<not> str_in q (lower t)"
    and "dget m ''text'' (JStr []) = JStr t" and "str_in q (lower t)"
  shows "scan_messages lower q (pre @ JObj m # post) = Inr True"
  using assms(1)
proof (induction pre)
  case Nil
  with assms(2,3) show ?case by (simp add: py_lower_def)
next
  case (Cons x pre)
  then obtain d t' where "x = JObj d" "dget d ''text'' (JStr []) = JStr t'" "\<not> str_in q (lower t')"
    by auto
  with Cons show ?case by (simp add: py_lower_def)
qed

lemma scan_messages_none:
  "\<forall>x\<in>set msgs. \<exists>d t. x = JObj d \<and> dget d ''text'' (JStr []) = JStr t \<and> \<not> str_in q (lower t)
     \<Longrightarrow> scan_messages lower q msgs = Inr False"
proof (induction msgs)
  case Nil
  then show ?case by simp
next
  case (Cons x msgs)
  then obtain d t' where "x = JObj d" "dget d ''text'' (JStr []) = JStr t'" "\<not> str_in q (lower t')"
    by auto
  with Cons show ?case by (simp add: py_lower_def)
qed

lemma search_results_member:
  assumes "search_results lower convs query = Inr rs" and "h \<in> set rs"
  shows "\<exists>item\<in>set convs. search_conv lower (lower query) item = Inr (Some h)"
proof -
  from assms(1) obtain hits ordered
    where t: "traverse (search_conv lower (lower query)) convs = Inr hits"
      and s: "py_sort_desc sh_created_at (List.map_filter id hits) = Inr ordered"
      and rs: "rs = take 100 ordered"
    by (rule search_results_cases)
  from assms(2) rs have "h \<in> set ordered" by (auto dest: in_set_takeD)
  with py_sort_desc_set [OF s] have "h \<in> set (List.map_filter id hits)" by simp
  then have "Some h \<in> set hits" by (auto simp: List.map_filter_def)
  then have "(Inr (Some h) :: py_error + search_hit option) \<in> set (map Inr hits)" by simp
  then have "Inr (Some h) \<in> set (map (search_conv lower (lower query)) convs)"
    by (simp only: traverse_map [OF t])
  then show ?thesis by auto
qed

text \<open>
  C1. For a conversation whose name and summary are strings that do not contain the
  lowered query, the search goes through the messages in their order and looks at the
  lowered \<^verbatim>\<open>text\<close> field of each: at the first message whose text contains the query
  it reports the conversation with the match type \<^verbatim>\<open>message\<close>, whatever comes after
  that message; when no text contains the query the conversation is not reported. A
  name or summary that contains the query gives the match type \<^verbatim>\<open>title/summary\<close>.
  Every hit in the results of a search is the hit of a stored conversation, and an empty
  query is answered with the empty list, without a load.
\<close>

theorem search_matches_message_text:
  "(dget conv ''name'' (JStr []) = JStr n \<and> dget conv ''summary'' (JStr []) = JStr s \<and>
    \<not> str_in q (lower n) \<and> \<not> str_in q (lower s) \<and>
    dget conv ''chat_messages'' (JArr []) = JArr (pre @ JObj m # post) \<and>
    (\<forall>x\<in>set pre. \<exists>d t. x = JObj d \<and> dget d ''text'' (JStr []) = JStr t \<and> \<not> str_in q (lower t)) \<and>
    dget m ''text'' (JStr []) = JStr t \<and> str_in q (lower t) \<longrightarrow>
      search_conv lower q (uuid, conv) = Inr (Some (hit uuid conv ''message''))) \<and>
   (dget conv ''name'' (JStr []) = JStr n \<and> dget conv ''summary'' (JStr []) = JStr s \<and>
    \<not> str_in q (lower n) \<and> \<not> str_in q (lower s) \<and>
    dget conv ''chat_messages'' (JArr []) = JArr msgs \<and>
    (\<forall>x\<in>set msgs. \<exists>d t. x = JObj d \<and> dget d ''text'' (JStr []) = JStr t \<and> \<not> str_in q (lower t)) \<longrightarrow>
      search_conv lower q (uuid, conv) = Inr None) \<and>
   (dget conv ''name'' (JStr []) = JStr n \<and> dget conv ''summary'' (JStr []) = JStr s \<and>
    (str_in q (lower n) \<or> str_in q (lower s)) \<longrightarrow>
      search_conv lower q (uuid, conv) = Inr (Some (hit uuid conv ''title/summary''))) \<and>
   (search_results lower convs query = Inr rs \<and> h \<in> set rs \<longrightarrow>
      (\<exists>item\<in>set convs. search_conv lower (lower query) item = Inr (Some h))) \<and>
   sh_match_type (hit uuid conv ''message'') = ''message'' \<and>
   serve_search loads fs lower [] st = (Inr [], st)"
proof (intro conjI impI)
  assume a: "dget conv ''name'' (JStr []) = JStr n \<and> dget conv ''summary'' (JStr []) = JStr s \<and>
    \<not> str_in q (lower n) \<and> \<not> str_in q (lower s) \<and>
    dget conv ''chat_messages'' (JArr []) = JArr (pre @ JObj m # post) \<and>
    (\<forall>x\<in>set pre. \<exists>d t. x = JObj d \<and> dget d ''text'' (JStr []) = JStr t \<and> \<not> str_in q (lower t)) \<and>
    dget m ''text'' (JStr []) = JStr t \<and> str_in q (lower t)"
  then have "scan_messages lower q (pre @ JObj m # post) = Inr True"
    by (intro scan_messages_first [where t = t]) blast+
  with a show "search_conv lower q (uuid, conv) = Inr (Some (hit uuid conv ''message''))"
    by (simp add: search_conv_def py_lower_def)
next
  assume a: "dget conv ''name'' (JStr []) = JStr n \<and> dget conv ''summary'' (JStr []) = JStr s \<and>
    \<not> str_in q (lower n) \<and> \<not> str_in q (lower s) \<and>
    dget conv ''chat_messages'' (JArr []) = JArr msgs \<and>
    (\<forall>x\<in>set msgs. \<exists>d t. x = JObj d \<and> dget d ''text'' (JStr []) = JStr t \<and> \<not> str_in q (lower t))"
  then have "scan_messages lower q msgs = Inr False"
    by (intro scan_messages_none) blast
  with a show "search_conv lower q (uuid, conv) = Inr None"
    by (simp add: search_conv_def py_lower_def)
next
  assume "dget conv ''name'' (JStr []) = JStr n \<and> dget conv ''summary'' (JStr []) = JStr s \<and>
    (str_in q (lower n) \<or> str_in q (lower s))"
  then show "search_conv lower q (uuid, conv) = Inr (Some (hit uuid conv ''title/summary''))"
    by (auto simp: search_conv_def py_lower_def)
next
  assume "search_results lower convs query = Inr rs \<and> h \<in> set rs"
  then show "\<exists>item\<in>set convs. search_conv lower (lower query) item = Inr (Some h)"
    using search_results_member by blast
next
  show "sh_match_type (hit uuid conv ''message'') = ''message''"
    by (simp add: hit_def)
next
  show "serve_search loads fs lower [] st = (Inr [], st)"
    by (simp add: serve_search_def)
qed

lemma shell_hit: "hit (JStr ''t'') shell_conv ''message'' = message_hit"
  by code_simp

lemma shell_found: "search_results ascii_lower [(JStr ''t'', shell_conv)] ''RUN'' = Inr [message_hit]"
  by code_simp

theorem search_matches_message_text_witness:
  "search_conv ascii_lower ''run'' (JStr ''t'', shell_conv) = Inr (Some message_hit) \<and>
   search_conv ascii_lower ''bash'' (JStr ''u'', tool_conv) = Inr None \<and>
   search_conv ascii_lower ''she'' (JStr ''u'', tool_conv)
     = Inr (Some (hit (JStr ''u'') tool_conv ''title/summary'')) \<and>
   search_results ascii_lower [(JStr ''t'', shell_conv)] ''RUN'' = Inr [message_hit] \<and>
   sh_match_type message_hit = ''message''"
proof -
  have a: "dget shell_conv ''name'' (JStr []) = JStr ''Shell'' \<and>
    dget shell_conv ''summary'' (JStr []) = JStr [] \<and>
    \<not> str_in ''run'' (ascii_lower ''Shell'') \<and> \<not> str_in ''run'' (ascii_lower []) \<and>
    dget shell_conv ''chat_messages'' (JArr [])
      = JArr ([JObj [(''text'', JStr ''Hello'')]] @ JObj tool_message # [JNull]) \<and>
    (\<forall>x\<in>set [JObj [(''text'', JStr ''Hello'')]].
       \<exists>d t. x = JObj d \<and> dget d ''text'' (JStr []) = JStr t \<and> \<not> str_in ''run'' (ascii_lower t)) \<and>
    dget tool_message ''text'' (JStr []) = JStr ''Run it'' \<and> str_in ''run'' (ascii_lower ''Run it'')"
  proof (intro conjI)
    show "\<forall>x\<in>set [JObj [(''text'', JStr ''Hello'')]].
       \<exists>d t. x = JObj d \<and> dget d ''text'' (JStr []) = JStr t \<and> \<not> str_in ''run'' (ascii_lower t)"
    proof -
      have "dget [(''text'', JStr ''Hello'')] ''text'' (JStr []) = JStr ''Hello'' \<and>
        \<not> str_in ''run'' (ascii_lower ''Hello'')"
        by code_simp
      then show ?thesis by auto
    qed
  qed code_simp+
  have b: "dget tool_conv ''name'' (JStr []) = JStr ''Shell'' \<and>
    dget tool_conv ''summary'' (JStr []) = JStr [] \<and>
    \<not> str_in ''bash'' (ascii_lower ''Shell'') \<and> \<not> str_in ''bash'' (ascii_lower []) \<and>
    dget tool_conv ''chat_messages'' (JArr []) = JArr [JObj tool_message] \<and>
    (\<forall>x\<in>set [JObj tool_message].
       \<exists>d t. x = JObj d \<and> dget d ''text'' (JStr []) = JStr t \<and> \<not> str_in ''bash'' (ascii_lower t))"
  proof (intro conjI)
    show "\<forall>x\<in>set [JObj tool_message].
       \<exists>d t. x = JObj d \<and> dget d ''text'' (JStr []) = JStr t \<and> \<not> str_in ''bash'' (ascii_lower t)"
    proof -
      have "dget tool_message ''text'' (JStr []) = JStr ''Run it'' \<and>
        \<not> str_in ''bash'' (ascii_lower ''Run it'')"
        by code_simp
      then show ?thesis by auto
    qed
  qed code_simp+
  have c: "dget tool_conv ''name'' (JStr []) = JStr ''Shell'' \<and>
    dget tool_conv ''summary'' (JStr []) = JStr [] \<and>
    (str_in ''she'' (ascii_lower ''Shell'') \<or> str_in ''she'' (ascii_lower []))"
    by code_simp
  have d: "search_results ascii_lower [(JStr ''t'', shell_conv)] ''RUN'' = Inr [message_hit] \<and>
    message_hit \<in> set [message_hit]"
    by (simp add: shell_found)
  note t = search_matches_message_text
  note a' = t [where lower = ascii_lower and q = "''run''" and conv = shell_conv
      and uuid = "JStr ''t''", THEN conjunct1, THEN mp, OF a, unfolded shell_hit]
  note b' = t [where lower = ascii_lower and q = "''bash''" and conv = tool_conv
      and uuid = "JStr ''u''", THEN conjunct2, THEN conjunct1, THEN mp, OF b]
  note c' = t [where lower = ascii_lower and q = "''she''" and conv = tool_conv
      and uuid = "JStr ''u''", THEN conjunct2, THEN conjunct2, THEN conjunct1, THEN mp, OF c]
  note d' = t [where lower = ascii_lower, THEN conjunct2, THEN conjunct2, THEN conjunct2,
      THEN conjunct1, THEN mp, OF d]
  note e' = t [where conv = shell_conv and uuid = "JStr ''t''", THEN conjunct2, THEN conjunct2,
      THEN conjunct2, THEN conjunct2, THEN conjunct1, unfolded shell_hit]
  show ?thesis
    by (intro conjI) (rule a' b' c' shell_found e')+
qed

lemma tool_flattened: "format_message_content (\<lambda>v. []) tool_message = Inr tool_flat"
  by code_simp

lemma tool_in_flat: "str_in (ascii_lower ''Bash'') (ascii_lower tool_flat)"
  by code_simp

lemma tool_not_found: "search_results ascii_lower tool_store ''Bash'' = Inr []"
  by code_simp

text \<open>
  The content blocks of a message are not searched: the flattened content of the sample
  message contains the name of the tool, and a search for that name finds nothing.
\<close>

theorem tool_name_is_not_searched:
  "dict_lookup tool_store (JStr ''u'') = Some tool_conv \<and>
   dget tool_conv ''chat_messages'' (JArr []) = JArr [JObj tool_message] \<and>
   format_message_content (\<lambda>v. []) tool_message = Inr tool_flat \<and>
   str_in (ascii_lower ''Bash'') (ascii_lower tool_flat) \<and>
   search_results ascii_lower tool_store ''Bash'' = Inr []"
  by (intro conjI) (rule tool_flattened tool_in_flat tool_not_found | code_simp)+


end
